theory Spec2Isabelle
  imports Complex_Main
begin

section \<open>Library interface\<close>

text \<open>
  The program is a single Python module, \<^verbatim>\<open>server.py\<close>. Strings are modelled as
  lists of 8-bit characters, so the character classes of the regular expressions are the
  ASCII ones; the methods of \<^verbatim>\<open>str\<close> that the module calls, the two regular
  expressions and \<^verbatim>\<open>max\<close> are defined below. The library functions whose results
  depend on Unicode tables, on the format mini-language, on URL resolution or on floating
  point are the fields of the record \<open>pylib\<close>, and the theorems hold for every such
  library. A field that can raise returns a sum. The type variable \<open>'f\<close> is Python's
  \<^verbatim>\<open>float\<close>.
\<close>

datatype exn = RequestException | ParseError | ValueError | OtherException

record 'f pylib =
  py_int :: "string \<Rightarrow> exn + int"              \<comment> \<open>\<^verbatim>\<open>int(s)\<close> on a string\<close>
  py_str :: "int \<Rightarrow> exn + string"              \<comment> \<open>\<^verbatim>\<open>str(n)\<close>\<close>
  py_format :: "int \<Rightarrow> string \<Rightarrow> exn + string" \<comment> \<open>\<^verbatim>\<open>format(n, spec)\<close>\<close>
  py_lower :: "string \<Rightarrow> string"                \<comment> \<open>\<^verbatim>\<open>s.lower()\<close>\<close>
  urljoin :: "string \<Rightarrow> string \<Rightarrow> exn + string" \<comment> \<open>\<^verbatim>\<open>urllib.parse.urljoin\<close>\<close>
  py_float :: "string \<Rightarrow> 'f"                     \<comment> \<open>\<^verbatim>\<open>float(s)\<close> on digits with an optional fraction\<close>
  fzero :: "'f"                                  \<comment> \<open>\<^verbatim>\<open>0.0\<close>\<close>
  fadd :: "'f \<Rightarrow> 'f \<Rightarrow> 'f"                      \<comment> \<open>\<^verbatim>\<open>x + y\<close>\<close>
  fmul :: "'f \<Rightarrow> int \<Rightarrow> 'f"                     \<comment> \<open>\<^verbatim>\<open>x * n\<close>\<close>
  fpos :: "'f \<Rightarrow> bool"                          \<comment> \<open>\<^verbatim>\<open>x > 0\<close>\<close>
  int_truediv :: "int \<Rightarrow> int \<Rightarrow> exn + 'f"       \<comment> \<open>\<^verbatim>\<open>m / n\<close> on ints\<close>
  fdiv :: "'f \<Rightarrow> 'f \<Rightarrow> exn + 'f"                \<comment> \<open>\<^verbatim>\<open>x / y\<close>\<close>
  fceil :: "'f \<Rightarrow> exn + int"                    \<comment> \<open>\<^verbatim>\<open>math.ceil(x)\<close>\<close>

section \<open>Strings\<close>

fun strip_prefix :: "string \<Rightarrow> string \<Rightarrow> string option" where
  "strip_prefix [] s = Some s"
| "strip_prefix (p # ps) [] = None"
| "strip_prefix (p # ps) (c # cs) = (if p = c then strip_prefix ps cs else None)"

definition startswith :: "string \<Rightarrow> string \<Rightarrow> bool" where
  "startswith s p = (strip_prefix p s \<noteq> None)"

text \<open>\<^verbatim>\<open>sub in s\<close> on strings.\<close>

fun contains :: "string \<Rightarrow> string \<Rightarrow> bool" where
  "contains [] sub = (sub = [])"
| "contains (c # cs) sub = (startswith (c # cs) sub \<or> contains cs sub)"

text \<open>\<^verbatim>\<open>s.replace(old, new)\<close>: the occurrences of \<open>old\<close> are replaced from the left,
  without overlap; an empty \<open>old\<close> matches between any two characters.\<close>

fun replace_from :: "string \<Rightarrow> string \<Rightarrow> string \<Rightarrow> string" where
  "replace_from old new [] = []"
| "replace_from old new (c # cs) =
     (if startswith (c # cs) old then new @ replace_from old new (drop (length old - 1) cs)
      else c # replace_from old new cs)"

definition str_replace :: "string \<Rightarrow> string \<Rightarrow> string \<Rightarrow> string" where
  "str_replace s old new =
     (if old = [] then new @ concat (map (\<lambda>c. c # new) s) else replace_from old new s)"

text \<open>\<^verbatim>\<open>s.rsplit('/', 1)[0]\<close>: the text before the last slash, all of \<open>s\<close> without one.\<close>

definition rsplit_head :: "string \<Rightarrow> string" where
  "rsplit_head s =
     (if CHR ''/'' \<in> set s then rev (tl (dropWhile (\<lambda>c. c \<noteq> CHR ''/'') (rev s))) else s)"

definition is_digit :: "char \<Rightarrow> bool" where
  "is_digit c = (c \<in> set ''0123456789'')"

definition is_alnum :: "char \<Rightarrow> bool" where
  "is_alnum c =
     (is_digit c \<or> c \<in> set ''abcdefghijklmnopqrstuvwxyz'' \<or> c \<in> set ''ABCDEFGHIJKLMNOPQRSTUVWXYZ'')"

section \<open>The duration parser\<close>

text \<open>One match of \<^verbatim>\<open>(\d+(?:\.\d+)?)([HMS])\<close> at the start of a string: the number, the
  unit and the rest. Both repetitions are greedy, and giving back digits never helps,
  since the character after a shorter run is a digit.\<close>

definition is_unit :: "char \<Rightarrow> bool" where
  "is_unit c = (c = CHR ''H'' \<or> c = CHR ''M'' \<or> c = CHR ''S'')"

definition match_duration :: "string \<Rightarrow> (string \<times> char \<times> string) option" where
  "match_duration s =
     (let ds = takeWhile is_digit s; r1 = dropWhile is_digit s in
      if ds = [] then None
      else (case r1 of
              [] \<Rightarrow> None
            | c # r2 \<Rightarrow>
                if is_unit c then Some (ds, c, r2)
                else if c = CHR ''.'' then
                  (let fs = takeWhile is_digit r2; r3 = dropWhile is_digit r2 in
                   if fs = [] then None
                   else (case r3 of
                           [] \<Rightarrow> None
                         | u # r4 \<Rightarrow> if is_unit u then Some (ds @ CHR ''.'' # fs, u, r4) else None))
                else None))"

lemma dropWhile_Cons_shorter: "dropWhile P s = c # r \<Longrightarrow> length r < length s"
  using length_dropWhile_le [of P s] by simp

lemma match_duration_shorter:
  "match_duration s = Some (v, u, rest) \<Longrightarrow> length rest < length s"
  by (auto simp: match_duration_def Let_def split: if_splits list.splits
      dest!: dropWhile_Cons_shorter)

text \<open>\<^verbatim>\<open>pattern.findall(s)\<close>: the matches from left to right, without overlap.\<close>

function findall_duration :: "string \<Rightarrow> (string \<times> char) list" where
  "findall_duration [] = []"
| "findall_duration (c # cs) =
     (case match_duration (c # cs) of
        None \<Rightarrow> findall_duration cs
      | Some (v, u, rest) \<Rightarrow> (v, u) # findall_duration rest)"
  by pat_completeness auto
termination
  by (relation "measure length") (auto dest: match_duration_shorter)

text \<open>The loop body of \<^verbatim>\<open>_parse_duration\<close>.\<close>

definition add_part :: "'f pylib \<Rightarrow> 'f \<Rightarrow> string \<times> char \<Rightarrow> 'f" where
  "add_part L duration p =
     (let v = py_float L (fst p); unit = snd p in
      if unit = CHR ''H'' then fadd L duration (fmul L v 3600)
      else if unit = CHR ''M'' then fadd L duration (fmul L v 60)
      else if unit = CHR ''S'' then fadd L duration v
      else duration)"

text \<open>\<^verbatim>\<open>_parse_duration\<close>; the argument is \<open>None\<close> when the attribute is absent.\<close>

definition parse_duration :: "'f pylib \<Rightarrow> string option \<Rightarrow> 'f" where
  "parse_duration L duration_str =
     (case duration_str of
        None \<Rightarrow> fzero L
      | Some s \<Rightarrow>
          if s = [] \<or> \<not> startswith s ''PT'' then fzero L
          else foldl (add_part L) (fzero L) (findall_duration (drop 2 s)))"

section \<open>The template expander\<close>

text \<open>One match of \<^verbatim>\<open>\$(Number|Time)(%[\da-zA-Z]+)?\$\<close> at the start of a string: the
  name, the format group when it took part, and the rest.\<close>

definition match_name :: "string \<Rightarrow> (string \<times> string) option" where
  "match_name s =
     (case strip_prefix ''Number'' s of
        Some r \<Rightarrow> Some (''Number'', r)
      | None \<Rightarrow> (case strip_prefix ''Time'' s of Some r \<Rightarrow> Some (''Time'', r) | None \<Rightarrow> None))"

definition match_placeholder :: "string \<Rightarrow> (string \<times> string option \<times> string) option" where
  "match_placeholder s =
     (case s of
        [] \<Rightarrow> None
      | c # s1 \<Rightarrow>
          if c \<noteq> CHR ''$'' then None
          else (case match_name s1 of
                  None \<Rightarrow> None
                | Some (name, s2) \<Rightarrow>
                    (case s2 of
                       [] \<Rightarrow> None
                     | c2 # s3 \<Rightarrow>
                         if c2 = CHR ''$'' then Some (name, None, s3)
                         else if c2 = CHR ''%'' then
                           (let al = takeWhile is_alnum s3; s4 = dropWhile is_alnum s3 in
                            if al = [] then None
                            else (case s4 of
                                    [] \<Rightarrow> None
                                  | c4 # s5 \<Rightarrow>
                                      if c4 = CHR ''$'' then Some (name, Some (CHR ''%'' # al), s5)
                                      else None))
                         else None)))"

text \<open>The inner function \<^verbatim>\<open>replace_func\<close>, on the two groups of a match.\<close>

definition replace_func ::
  "'f pylib \<Rightarrow> int option \<Rightarrow> int option \<Rightarrow> string \<Rightarrow> string option \<Rightarrow> exn + string" where
  "replace_func L number time name fmt =
     (let v = (if name = ''Number'' then number else time) in
      case v of
        None \<Rightarrow> Inr []
      | Some n \<Rightarrow>
          (case fmt of
             None \<Rightarrow> py_str L n
           | Some f \<Rightarrow>
               if f \<noteq> [] then py_format L n (dropWhile (\<lambda>c. c = CHR ''%'') f)
               else py_str L n))"

lemma strip_prefix_length: "strip_prefix p s = Some r \<Longrightarrow> length r \<le> length s"
  by (induction p s rule: strip_prefix.induct) (auto split: if_splits)

lemma match_name_length: "match_name s = Some (n, r) \<Longrightarrow> length r \<le> length s"
  by (auto simp: match_name_def split: option.splits dest: strip_prefix_length)

lemma match_placeholder_shorter:
  "match_placeholder s = Some (name, fmt, rest) \<Longrightarrow> length rest < length s"
  by (auto simp: match_placeholder_def Let_def split: if_splits list.splits option.splits
      dest!: dropWhile_Cons_shorter match_name_length)

text \<open>\<^verbatim>\<open>_format_template\<close>: \<^verbatim>\<open>re.sub\<close> with \<^verbatim>\<open>replace_func\<close>. An exception of the
  replacement function ends the substitution.\<close>

function format_template ::
  "'f pylib \<Rightarrow> string \<Rightarrow> int option \<Rightarrow> int option \<Rightarrow> exn + string" where
  "format_template L [] number time = Inr []"
| "format_template L (c # cs) number time =
     (case match_placeholder (c # cs) of
        None \<Rightarrow>
          (case format_template L cs number time of
             Inl e \<Rightarrow> Inl e
           | Inr out \<Rightarrow> Inr (c # out))
      | Some (name, fmt, rest) \<Rightarrow>
          (case replace_func L number time name fmt of
             Inl e \<Rightarrow> Inl e
           | Inr rep \<Rightarrow>
               (case format_template L rest number time of
                  Inl e \<Rightarrow> Inl e
                | Inr out \<Rightarrow> Inr (rep @ out))))"
  by pat_completeness auto
termination
  by (relation "measure (\<lambda>(L, s, number, time). length s)")
     (auto dest: match_placeholder_shorter)

section \<open>The manifest\<close>

text \<open>An element of \<^verbatim>\<open>xml.etree.ElementTree\<close>: tag (with its namespace in braces),
  attributes and children in document order.\<close>

datatype element = Element (tag: string) (attrib: "(string \<times> string) list") (children: "element list")

definition mpd :: "string \<Rightarrow> string" where
  "mpd name = ''{urn:mpeg:dash:schema:mpd:2011}'' @ name"

text \<open>\<^verbatim>\<open>element.find('mpd:name', ns)\<close> and \<^verbatim>\<open>element.findall('mpd:name', ns)\<close>: the
  children with that tag.\<close>

definition findall :: "element \<Rightarrow> string \<Rightarrow> element list" where
  "findall e name = filter (\<lambda>c. tag c = mpd name) (children e)"

definition find_first :: "element \<Rightarrow> string \<Rightarrow> element option" where
  "find_first e name = (case findall e name of [] \<Rightarrow> None | c # cs \<Rightarrow> Some c)"

text \<open>\<^verbatim>\<open>_get_attrib(element, name)\<close>; the default of the source is applied where the
  function is called.\<close>

definition get_attrib :: "element \<Rightarrow> string \<Rightarrow> string option" where
  "get_attrib e name = map_of (attrib e) name"

text \<open>\<^verbatim>\<open>int(_get_attrib(element, name, default))\<close> with an integer default.\<close>

definition int_attrib :: "'f pylib \<Rightarrow> element \<Rightarrow> string \<Rightarrow> int \<Rightarrow> exn + int" where
  "int_attrib L e name dflt = (case get_attrib e name of None \<Rightarrow> Inr dflt | Some s \<Rightarrow> py_int L s)"

record track =
  key :: string
  tid :: string
  ttype :: string
  bandwidth :: int
  urls :: "string list"

text \<open>A Python dictionary keeps its keys in insertion order; storing under a key it has
  keeps the key's place.\<close>

type_synonym tracks = "(string \<times> track) list"

fun dict_set :: "tracks \<Rightarrow> string \<Rightarrow> track \<Rightarrow> tracks" where
  "dict_set [] k v = [(k, v)]"
| "dict_set ((k', v') # kvs) k v = (if k' = k then (k, v) # kvs else (k', v') # dict_set kvs k v)"

text \<open>\<^verbatim>\<open>urljoin(base_url, _format_template(template, number, time).replace('$RepresentationID$', rep_id))\<close>\<close>

definition template_url ::
  "'f pylib \<Rightarrow> string \<Rightarrow> string \<Rightarrow> string \<Rightarrow> int option \<Rightarrow> int option \<Rightarrow> exn + string" where
  "template_url L base_url template rep_id number time =
     (case format_template L template number time of
        Inl e \<Rightarrow> Inl e
      | Inr s \<Rightarrow> urljoin L base_url (str_replace s ''$RepresentationID$'' rep_id))"

text \<open>The loop \<^verbatim>\<open>for _ in range(r + 1)\<close> of one \<^verbatim>\<open>S\<close> element, on the number of
  iterations left; it returns the list of URLs and the two cursors.\<close>

fun timeline_repeat ::
  "'f pylib \<Rightarrow> string \<Rightarrow> string \<Rightarrow> string \<Rightarrow> int \<Rightarrow> nat \<Rightarrow> string list \<Rightarrow> int \<Rightarrow> int
    \<Rightarrow> exn + (string list \<times> int \<times> int)" where
  "timeline_repeat L base_url media_template rep_id d 0 us current_time current_number =
     Inr (us, current_time, current_number)"
| "timeline_repeat L base_url media_template rep_id d (Suc k) us current_time current_number =
     (case template_url L base_url media_template rep_id (Some current_number) (Some current_time) of
        Inl e \<Rightarrow> Inl e
      | Inr media_url \<Rightarrow>
          timeline_repeat L base_url media_template rep_id d k (us @ [media_url])
            (current_time + d) (current_number + 1))"

text \<open>The loop over the \<^verbatim>\<open>S\<close> elements of a timeline.\<close>

fun timeline_loop ::
  "'f pylib \<Rightarrow> string \<Rightarrow> string \<Rightarrow> string \<Rightarrow> element list \<Rightarrow> string list \<Rightarrow> int \<Rightarrow> int
    \<Rightarrow> exn + string list" where
  "timeline_loop L base_url media_template rep_id [] us current_time current_number = Inr us"
| "timeline_loop L base_url media_template rep_id (s_tag # rest) us current_time current_number =
     (case get_attrib s_tag ''d'' of
        None \<Rightarrow> timeline_loop L base_url media_template rep_id rest us current_time current_number
      | Some d_str \<Rightarrow>
          (case py_int L d_str of
             Inl e \<Rightarrow> Inl e
           | Inr d \<Rightarrow>
               (case (case get_attrib s_tag ''t'' of
                        None \<Rightarrow> Inr current_time
                      | Some t_str \<Rightarrow> py_int L t_str) of
                  Inl e \<Rightarrow> Inl e
                | Inr t \<Rightarrow>
                    (case int_attrib L s_tag ''r'' 0 of
                       Inl e \<Rightarrow> Inl e
                     | Inr r \<Rightarrow>
                         (case timeline_repeat L base_url media_template rep_id d (nat (r + 1))
                                 us t current_number of
                            Inl e \<Rightarrow> Inl e
                          | Inr (us', t', n') \<Rightarrow>
                              timeline_loop L base_url media_template rep_id rest us' t' n')))))"

text \<open>The loop \<^verbatim>\<open>for i in range(segment_count)\<close> of the fallback without a timeline.\<close>

fun vod_loop ::
  "'f pylib \<Rightarrow> string \<Rightarrow> string \<Rightarrow> string \<Rightarrow> int \<Rightarrow> nat list \<Rightarrow> string list \<Rightarrow> exn + string list" where
  "vod_loop L base_url media_template rep_id start_number [] us = Inr us"
| "vod_loop L base_url media_template rep_id start_number (i # rest) us =
     (case template_url L base_url media_template rep_id (Some (start_number + int i)) None of
        Inl e \<Rightarrow> Inl e
      | Inr media_url \<Rightarrow>
          vod_loop L base_url media_template rep_id start_number rest (us @ [media_url]))"

text \<open>\<^verbatim>\<open>math.ceil(media_duration / (seg_duration_units / timescale))\<close>\<close>

definition segment_count :: "'f pylib \<Rightarrow> 'f \<Rightarrow> int \<Rightarrow> int \<Rightarrow> exn + int" where
  "segment_count L media_duration seg_duration_units timescale =
     (case int_truediv L seg_duration_units timescale of
        Inl e \<Rightarrow> Inl e
      | Inr segment_len_secs \<Rightarrow>
          (case fdiv L media_duration segment_len_secs of
             Inl e \<Rightarrow> Inl e
           | Inr q \<Rightarrow> fceil L q))"

text \<open>The initialization segment: the list \<^verbatim>\<open>urls\<close> after lines 77 to 84.\<close>

definition init_urls :: "'f pylib \<Rightarrow> string \<Rightarrow> element \<Rightarrow> string \<Rightarrow> exn + string list" where
  "init_urls L base_url current_template rep_id =
     (case get_attrib current_template ''initialization'' of
        None \<Rightarrow> Inr []
      | Some init_template \<Rightarrow>
          if init_template = [] then Inr []
          else (case template_url L base_url init_template rep_id None None of
                  Inl e \<Rightarrow> Inl e
                | Inr u \<Rightarrow> Inr [u]))"

text \<open>The media segments of a representation with a media template, appended to
  \<^verbatim>\<open>urls\<close>: \<open>Inr None\<close> is the \<^verbatim>\<open>continue\<close> of line 130.\<close>

definition media_urls ::
  "'f pylib \<Rightarrow> string \<Rightarrow> element \<Rightarrow> element \<Rightarrow> string \<Rightarrow> string \<Rightarrow> string list
    \<Rightarrow> exn + string list option" where
  "media_urls L base_url root_el current_template rep_id media_template us =
     (case int_attrib L current_template ''startNumber'' 1 of
        Inl e \<Rightarrow> Inl e
      | Inr start_number \<Rightarrow>
          (case find_first current_template ''SegmentTimeline'' of
             Some timeline \<Rightarrow>
               (case timeline_loop L base_url media_template rep_id (findall timeline ''S'')
                       us 0 start_number of
                  Inl e \<Rightarrow> Inl e
                | Inr us' \<Rightarrow> Inr (Some us'))
           | None \<Rightarrow>
               (let media_duration = parse_duration L (get_attrib root_el ''mediaPresentationDuration'') in
                case int_attrib L current_template ''timescale'' 1 of
                  Inl e \<Rightarrow> Inl e
                | Inr timescale \<Rightarrow>
                    (case int_attrib L current_template ''duration'' 0 of
                       Inl e \<Rightarrow> Inl e
                     | Inr seg_duration_units \<Rightarrow>
                         if seg_duration_units > 0 \<and> timescale > 0 \<and> fpos L media_duration then
                           (case segment_count L media_duration seg_duration_units timescale of
                              Inl e \<Rightarrow> Inl e
                            | Inr n \<Rightarrow>
                                (case vod_loop L base_url media_template rep_id start_number
                                        [0 ..< nat n] us of
                                   Inl e \<Rightarrow> Inl e
                                 | Inr us' \<Rightarrow> Inr (Some us')))
                         else Inr None))))"

text \<open>The body of the loop over the representations of an adaptation set (lines 63 to
  140): \<open>Inr None\<close> when the representation is skipped, the track it records otherwise.\<close>

definition parse_representation ::
  "'f pylib \<Rightarrow> string \<Rightarrow> element \<Rightarrow> string \<Rightarrow> element option \<Rightarrow> element \<Rightarrow> exn + track option" where
  "parse_representation L base_url root_el content_type segment_template rep =
     (case get_attrib rep ''id'' of
        None \<Rightarrow> Inr None
      | Some rep_id \<Rightarrow>
          if rep_id = [] then Inr None
          else (case (case find_first rep ''SegmentTemplate'' of
                        Some t \<Rightarrow> Some t
                      | None \<Rightarrow> segment_template) of
                  None \<Rightarrow> Inr None
                | Some current_template \<Rightarrow>
                    (case init_urls L base_url current_template rep_id of
                       Inl e \<Rightarrow> Inl e
                     | Inr us \<Rightarrow>
                         (case get_attrib current_template ''media'' of
                            None \<Rightarrow> Inr None
                          | Some media_template \<Rightarrow>
                              if media_template = [] then Inr None
                              else (case media_urls L base_url root_el current_template rep_id
                                           media_template us of
                                      Inl e \<Rightarrow> Inl e
                                    | Inr None \<Rightarrow> Inr None
                                    | Inr (Some us') \<Rightarrow>
                                        if length us' = 0 then Inr None
                                        else (case int_attrib L rep ''bandwidth'' 0 of
                                                Inl e \<Rightarrow> Inl e
                                              | Inr bw \<Rightarrow>
                                                  Inr (Some \<lparr>key = content_type @ ''_'' @ rep_id,
                                                        tid = rep_id, ttype = content_type,
                                                        bandwidth = bw, urls = us'\<rparr>)))))))"

fun representation_loop ::
  "'f pylib \<Rightarrow> string \<Rightarrow> element \<Rightarrow> string \<Rightarrow> element option \<Rightarrow> element list \<Rightarrow> tracks
    \<Rightarrow> exn + tracks" where
  "representation_loop L base_url root_el content_type segment_template [] ts = Inr ts"
| "representation_loop L base_url root_el content_type segment_template (rep # reps) ts =
     (case parse_representation L base_url root_el content_type segment_template rep of
        Inl e \<Rightarrow> Inl e
      | Inr None \<Rightarrow> representation_loop L base_url root_el content_type segment_template reps ts
      | Inr (Some t) \<Rightarrow>
          representation_loop L base_url root_el content_type segment_template reps
            (dict_set ts (key t) t))"

fun adaptation_loop :: "'f pylib \<Rightarrow> string \<Rightarrow> element \<Rightarrow> element list \<Rightarrow> tracks \<Rightarrow> exn + tracks" where
  "adaptation_loop L base_url root_el [] ts = Inr ts"
| "adaptation_loop L base_url root_el (adaptation_set # rest) ts =
     (let content_type = (case get_attrib adaptation_set ''contentType'' of
                            None \<Rightarrow> ''unknown'' | Some c \<Rightarrow> c);
          segment_template = find_first adaptation_set ''SegmentTemplate''
      in case representation_loop L base_url root_el content_type segment_template
                (findall adaptation_set ''Representation'') ts of
           Inl e \<Rightarrow> Inl e
         | Inr ts' \<Rightarrow> adaptation_loop L base_url root_el rest ts')"

text \<open>What \<^verbatim>\<open>requests.get\<close> and \<^verbatim>\<open>ET.fromstring\<close> give for the manifest: the request
  raises, or answers with the final URL and a body that is a document or is malformed.\<close>

datatype response = Response (url: string) (document: "element option")

text \<open>The \<^verbatim>\<open>try\<close> block of \<^verbatim>\<open>parse_mpd\<close>: \<open>Inr None\<close> is the
  \<^verbatim>\<open>return None, None\<close> of line 54.\<close>

definition parse_mpd_try :: "'f pylib \<Rightarrow> exn + response \<Rightarrow> exn + (tracks \<times> string) option" where
  "parse_mpd_try L got =
     (case got of
        Inl e \<Rightarrow> Inl e
      | Inr resp \<Rightarrow>
          (let base_url = rsplit_head (url resp) @ ''/'' in
           case document resp of
             None \<Rightarrow> Inl ParseError
           | Some root_el \<Rightarrow>
               (let mpd_type = (case get_attrib root_el ''type'' of None \<Rightarrow> ''static'' | Some t \<Rightarrow> t) in
                case find_first root_el ''Period'' of
                  None \<Rightarrow> Inr None
                | Some period \<Rightarrow>
                    (case adaptation_loop L base_url root_el (findall period ''AdaptationSet'') [] of
                       Inl e \<Rightarrow> Inl e
                     | Inr ts \<Rightarrow> Inr (Some (ts, mpd_type))))))"

text \<open>\<^verbatim>\<open>parse_mpd\<close>: each of the three handlers returns \<^verbatim>\<open>None, None\<close>.\<close>

definition parse_mpd :: "'f pylib \<Rightarrow> exn + response \<Rightarrow> (tracks \<times> string) option" where
  "parse_mpd L got = (case parse_mpd_try L got of Inl e \<Rightarrow> None | Inr r \<Rightarrow> r)"

section \<open>The stream handler\<close>

text \<open>\<^verbatim>\<open>max(xs, key=f)\<close> on a list with first element \<open>x\<close>: the first of the greatest.\<close>

fun max_by :: "('a \<Rightarrow> int) \<Rightarrow> 'a \<Rightarrow> 'a list \<Rightarrow> 'a" where
  "max_by f x [] = x"
| "max_by f x (y # ys) = max_by f (if f y > f x then y else x) ys"

datatype http = Abort nat | Streaming track string

text \<open>\<^verbatim>\<open>stream\<close>, up to the choice of the track: the request's kind and the result of
  \<^verbatim>\<open>parse_mpd\<close> give the status of an abort, or the track and the manifest type that
  the response streams (status 200). The check for DRM before the parse only prints a
  warning and catches every exception.\<close>

definition stream :: "'f pylib \<Rightarrow> string \<Rightarrow> (tracks \<times> string) option \<Rightarrow> http" where
  "stream L stream_type parsed =
     (if stream_type \<notin> set [''video'', ''audio''] then Abort 404
      else (case parsed of
              None \<Rightarrow> Abort 500
            | Some (initial_tracks, mpd_type) \<Rightarrow>
                if initial_tracks = [] then Abort 500
                else (let target_tracks =
                            filter (\<lambda>(k, v). contains (py_lower L k) stream_type) initial_tracks
                      in if target_tracks = [] then Abort 404
                         else (let valid_tracks =
                                     filter (\<lambda>(k, v). urls v \<noteq> [] \<and> length (urls v) > 0) target_tracks
                               in case map snd valid_tracks of
                                    [] \<Rightarrow> Abort 500
                                  | t # ts \<Rightarrow> Streaming (max_by bandwidth t ts) mpd_type))))"

section \<open>The producer task\<close>

text \<open>
  \<^verbatim>\<open>segment_fetcher\<close> runs in a thread of its own. What it reads from outside is a
  script: the answers of \<^verbatim>\<open>stop_event.is_set()\<close>, the outcomes of
  \<^verbatim>\<open>session.get\<close> followed by \<^verbatim>\<open>raise_for_status\<close>, and the results of
  \<^verbatim>\<open>parse_mpd(mpd_url)\<close>, each in the order of the calls. A run that needs an answer
  the script does not have is still running when the observation ends (\<open>Starved\<close>).
  \<^verbatim>\<open>q.put\<close> is taken to return: the consumer drains the buffer.
\<close>

datatype fetched = Content string | RequestFailed | Crashed

record script =
  stops :: "bool list"
  gets :: "fetched list"
  parses :: "(tracks \<times> string) option list"

text \<open>The state of the task: the items put into \<^verbatim>\<open>q\<close>, oldest first (\<open>None\<close> is the
  end marker), and the set \<^verbatim>\<open>sent_segments\<close>. Two history variables record the URLs
  passed to \<^verbatim>\<open>session.get\<close> and the URLs whose content was put into the queue.\<close>

record fetcher =
  queue :: "string option list"
  sent_segments :: "string set"
  requested :: "string list"
  yielded :: "string list"

datatype signal = Normal | Break | Raised | Starved

definition fetcher_init :: fetcher where
  "fetcher_init = \<lparr>queue = [], sent_segments = {}, requested = [], yielded = []\<rparr>"

text \<open>The \<^verbatim>\<open>for\<close> loop of the static branch (lines 176 to 185).\<close>

fun vod_for :: "string list \<Rightarrow> fetcher \<Rightarrow> script \<Rightarrow> signal \<times> fetcher \<times> script" where
  "vod_for [] st ev = (Normal, st, ev)"
| "vod_for (segment_url # rest) st ev =
     (case stops ev of
        [] \<Rightarrow> (Starved, st, ev)
      | b # bs \<Rightarrow>
          if b then (Break, st, ev\<lparr>stops := bs\<rparr>)
          else (case gets ev of
                  [] \<Rightarrow> (Starved, st, ev\<lparr>stops := bs\<rparr>)
                | g # gs \<Rightarrow>
                    (let st1 = st\<lparr>requested := requested st @ [segment_url]\<rparr>;
                         ev1 = ev\<lparr>stops := bs, gets := gs\<rparr>
                     in case g of
                          Content c \<Rightarrow> vod_for rest (st1\<lparr>queue := queue st1 @ [Some c]\<rparr>) ev1
                        | RequestFailed \<Rightarrow> vod_for rest st1 ev1
                        | Crashed \<Rightarrow> (Raised, st1, ev1))))"

lemma vod_for_stops:
  "vod_for us st ev = (sig, st', ev') \<Longrightarrow> length (stops ev') \<le> length (stops ev)"
proof (induction us arbitrary: st ev)
  case Nil
  then show ?case by simp
next
  case (Cons u us)
  from Cons.prems show ?case
    by (auto simp: Let_def split: list.splits if_splits fetched.splits dest!: Cons.IH)
qed

text \<open>The \<^verbatim>\<open>while\<close> loop of the static branch (lines 173 to 187).\<close>

function vod_while :: "string list \<Rightarrow> fetcher \<Rightarrow> script \<Rightarrow> signal \<times> fetcher \<times> script" where
  "vod_while all_urls st ev =
     (case stops ev of
        [] \<Rightarrow> (Starved, st, ev)
      | b # bs \<Rightarrow>
          if b then (Normal, st, ev\<lparr>stops := bs\<rparr>)
          else (case vod_for all_urls st (ev\<lparr>stops := bs\<rparr>) of
                  (sig, st', ev') \<Rightarrow>
                    if sig = Raised \<or> sig = Starved then (sig, st', ev')
                    else (case stops ev' of
                            [] \<Rightarrow> (Starved, st', ev')
                          | b' # bs' \<Rightarrow>
                              if b' then (Break, st', ev'\<lparr>stops := bs'\<rparr>)
                              else vod_while all_urls st' (ev'\<lparr>stops := bs'\<rparr>))))"
  by pat_completeness auto
termination
  by (relation "measure (\<lambda>(us, st, ev). length (stops ev))")
     (auto dest!: vod_for_stops [OF sym])

text \<open>The \<^verbatim>\<open>for\<close> loop of the live branch (lines 202 to 214). The flag
  \<^verbatim>\<open>found_new\<close> only decides whether the task sleeps, and is left out.\<close>

fun live_for :: "string list \<Rightarrow> fetcher \<Rightarrow> script \<Rightarrow> signal \<times> fetcher \<times> script" where
  "live_for [] st ev = (Normal, st, ev)"
| "live_for (segment_url # rest) st ev =
     (case stops ev of
        [] \<Rightarrow> (Starved, st, ev)
      | b # bs \<Rightarrow>
          if b then (Break, st, ev\<lparr>stops := bs\<rparr>)
          else if segment_url \<notin> sent_segments st then
            (case gets ev of
               [] \<Rightarrow> (Starved, st, ev\<lparr>stops := bs\<rparr>)
             | g # gs \<Rightarrow>
                 (let st1 = st\<lparr>requested := requested st @ [segment_url]\<rparr>;
                      ev1 = ev\<lparr>stops := bs, gets := gs\<rparr>
                  in case g of
                       Content c \<Rightarrow>
                         live_for rest
                           (st1\<lparr>queue := queue st1 @ [Some c],
                                sent_segments := insert segment_url (sent_segments st1),
                                yielded := yielded st1 @ [segment_url]\<rparr>) ev1
                     | RequestFailed \<Rightarrow> live_for rest st1 ev1
                     | Crashed \<Rightarrow> (Raised, st1, ev1)))
          else live_for rest st (ev\<lparr>stops := bs\<rparr>))"

lemma live_for_stops:
  "live_for us st ev = (sig, st', ev') \<Longrightarrow> length (stops ev') \<le> length (stops ev)"
proof (induction us arbitrary: st ev)
  case Nil
  then show ?case by simp
next
  case (Cons u us)
  from Cons.prems show ?case
    by (auto simp: Let_def split: list.splits if_splits fetched.splits dest!: Cons.IH)
qed

text \<open>The \<^verbatim>\<open>while\<close> loop of the live branch (lines 191 to 217).\<close>

function live_while :: "string \<Rightarrow> fetcher \<Rightarrow> script \<Rightarrow> signal \<times> fetcher \<times> script" where
  "live_while track_key st ev =
     (case stops ev of
        [] \<Rightarrow> (Starved, st, ev)
      | b # bs \<Rightarrow>
          if b then (Normal, st, ev\<lparr>stops := bs\<rparr>)
          else (case parses ev of
                  [] \<Rightarrow> (Starved, st, ev\<lparr>stops := bs\<rparr>)
                | p # ps \<Rightarrow>
                    (let ev1 = ev\<lparr>stops := bs, parses := ps\<rparr> in
                     case p of
                       None \<Rightarrow> live_while track_key st ev1
                     | Some (live_tracks, mt) \<Rightarrow>
                         if live_tracks = [] then live_while track_key st ev1
                         else (case map_of live_tracks track_key of
                                 None \<Rightarrow> (Break, st, ev1)
                               | Some t \<Rightarrow>
                                   if urls t = [] then (Break, st, ev1)
                                   else (case live_for (urls t) st ev1 of
                                           (sig, st', ev') \<Rightarrow>
                                             if sig = Raised \<or> sig = Starved then (sig, st', ev')
                                             else live_while track_key st' ev')))))"
  by pat_completeness auto
termination
  by (relation "measure (\<lambda>(k, st, ev). length (stops ev))")
     (auto dest!: live_for_stops [OF sym])

text \<open>\<^verbatim>\<open>segment_fetcher\<close>: the \<^verbatim>\<open>try\<close> block, the handler of \<^verbatim>\<open>Exception\<close> and the
  \<^verbatim>\<open>finally\<close> clause that puts the end marker. The result says whether the task has
  finished, and gives its state.\<close>

definition segment_fetcher :: "track \<Rightarrow> string \<Rightarrow> script \<Rightarrow> bool \<times> fetcher" where
  "segment_fetcher track mpd_type ev =
     (case (if mpd_type = ''static'' then vod_while (urls track) fetcher_init ev
            else live_while (key track) fetcher_init ev) of
        (sig, st, ev') \<Rightarrow>
          if sig = Starved then (False, st)
          else (True, st\<lparr>queue := queue st @ [None]\<rparr>))"

text \<open>The consumer loop of \<^verbatim>\<open>generate_stream\<close> on the items put into the queue: the
  chunks it yields when it meets the end marker, \<open>None\<close> when it waits for ever.\<close>

fun consume :: "string option list \<Rightarrow> string list option" where
  "consume [] = None"
| "consume (None # q) = Some []"
| "consume (Some segment_data # q) = map_option ((#) segment_data) (consume q)"

section \<open>A library for evaluation\<close>

text \<open>One library to run the definitions on concrete inputs: decimal integers with an
  optional sign, the format specifications \<^verbatim>\<open>[0][width][d]\<close>, ASCII lower case,
  relative references joined to a base that ends in a slash, and rationals as floats.\<close>

definition digit_val :: "char \<Rightarrow> nat" where
  "digit_val c = of_char c - 48"

definition nat_of_digits :: "string \<Rightarrow> nat" where
  "nat_of_digits s = foldl (\<lambda>a c. 10 * a + digit_val c) 0 s"

definition dec_int :: "string \<Rightarrow> exn + int" where
  "dec_int s =
     (let body = (case s of [] \<Rightarrow> [] | c # cs \<Rightarrow> if c = CHR ''-'' \<or> c = CHR ''+'' then cs else s) in
      if body = [] \<or> \<not> list_all is_digit body then Inl ValueError
      else if startswith s ''-'' then Inr (- int (nat_of_digits body))
      else Inr (int (nat_of_digits body)))"

fun digits_of :: "nat \<Rightarrow> string" where
  "digits_of n =
     (if n < 10 then [''0123456789'' ! n]
      else digits_of (n div 10) @ [''0123456789'' ! (n mod 10)])"

declare digits_of.simps [simp del]

definition dec_str :: "int \<Rightarrow> string" where
  "dec_str n = (if n < 0 then CHR ''-'' # digits_of (nat (- n)) else digits_of (nat n))"

definition dec_format :: "int \<Rightarrow> string \<Rightarrow> exn + string" where
  "dec_format n spec =
     (let zero = startswith spec ''0'';
          s1 = (if zero then tl spec else spec);
          width = nat_of_digits (takeWhile is_digit s1);
          ty = dropWhile is_digit s1;
          ds = digits_of (nat \<bar>n\<bar>);
          sign = (if n < 0 then ''-'' else [])
      in if ty \<noteq> [] \<and> ty \<noteq> ''d'' then Inl ValueError
         else if zero then Inr (sign @ replicate (width - length sign - length ds) CHR ''0'' @ ds)
         else Inr (replicate (width - length sign - length ds) CHR '' '' @ sign @ ds))"

definition ascii_lower :: "string \<Rightarrow> string" where
  "ascii_lower s =
     map (\<lambda>c. case map_of (zip ''ABCDEFGHIJKLMNOPQRSTUVWXYZ'' ''abcdefghijklmnopqrstuvwxyz'') c of
                None \<Rightarrow> c
              | Some l \<Rightarrow> l) s"

definition dec_float :: "string \<Rightarrow> rat" where
  "dec_float s =
     (let ip = takeWhile is_digit s; fp = drop 1 (dropWhile is_digit s) in
      of_nat (nat_of_digits ip) + of_nat (nat_of_digits fp) / 10 ^ length fp)"

definition lib0 :: "rat pylib" where
  "lib0 = \<lparr>py_int = dec_int, py_str = (\<lambda>n. Inr (dec_str n)), py_format = dec_format,
           py_lower = ascii_lower, urljoin = (\<lambda>b r. Inr (b @ r)), py_float = dec_float,
           fzero = 0, fadd = (+), fmul = (\<lambda>x n. x * of_int n), fpos = (\<lambda>x. x > 0),
           int_truediv = (\<lambda>m n. if n = 0 then Inl OtherException else Inr (of_int m / of_int n)),
           fdiv = (\<lambda>x y. if y = 0 then Inl OtherException else Inr (x / y)),
           fceil = (\<lambda>x. Inr \<lceil>x\<rceil>)\<rparr>"

section \<open>Example manifests\<close>

text \<open>A live manifest with one video representation, an initialization pattern and the
  timeline \<^verbatim>\<open><S d="2" r="2"/><S d="3"/>\<close>.\<close>

definition timeline_mpd :: element where
  "timeline_mpd =
     Element (mpd ''MPD'') [(''type'', ''dynamic'')]
       [Element (mpd ''Period'') []
          [Element (mpd ''AdaptationSet'') [(''contentType'', ''video'')]
             [Element (mpd ''SegmentTemplate'')
                [(''initialization'', ''$RepresentationID$/init.mp4''),
                 (''media'', ''$RepresentationID$/$Number$_$Time$.m4s'')]
                [Element (mpd ''SegmentTimeline'') []
                   [Element (mpd ''S'') [(''d'', ''2''), (''r'', ''2'')] [],
                    Element (mpd ''S'') [(''d'', ''3'')] []]],
              Element (mpd ''Representation'') [(''id'', ''v0''), (''bandwidth'', ''500000'')] []]]]"

text \<open>An on-demand manifest of 20 seconds in segments of 4 seconds.\<close>

definition vod_mpd :: element where
  "vod_mpd =
     Element (mpd ''MPD'') [(''mediaPresentationDuration'', ''PT20S'')]
       [Element (mpd ''Period'') []
          [Element (mpd ''AdaptationSet'') [(''contentType'', ''video'')]
             [Element (mpd ''SegmentTemplate'')
                [(''initialization'', ''$RepresentationID$/init.mp4''),
                 (''media'', ''$RepresentationID$/$Number$.m4s''),
                 (''timescale'', ''1''), (''duration'', ''4'')] [],
              Element (mpd ''Representation'') [(''id'', ''v0''), (''bandwidth'', ''500000'')] []]]]"

text \<open>A manifest whose period has no adaptation set.\<close>

definition empty_mpd :: element where
  "empty_mpd = Element (mpd ''MPD'') [] [Element (mpd ''Period'') [] []]"

text \<open>A manifest whose only representation has an initialization pattern and a timeline
  without entries.\<close>

definition init_only_mpd :: element where
  "init_only_mpd =
     Element (mpd ''MPD'') [(''type'', ''dynamic'')]
       [Element (mpd ''Period'') []
          [Element (mpd ''AdaptationSet'') [(''contentType'', ''video'')]
             [Element (mpd ''Representation'') [(''id'', ''v0'')]
                [Element (mpd ''SegmentTemplate'')
                   [(''initialization'', ''init.mp4''), (''media'', ''seg$Number$.m4s'')]
                   [Element (mpd ''SegmentTimeline'') [] []]]]]]"

section \<open>Notions of the statements\<close>

text \<open>What every track of a parse satisfies.\<close>

definition track_ok :: "string \<Rightarrow> track \<Rightarrow> bool" where
  "track_ok k t = (urls t \<noteq> [] \<and> key t = k \<and> k = ttype t @ ''_'' @ tid t)"

text \<open>The timeline as the specification describes it. An entry is its duration \<open>d\<close>, its
  explicit start \<open>t\<close> if it has one, and its repeat count \<open>r\<close>. An entry gives a URL
  for each of its \<open>r + 1\<close> iterations; after each URL the time cursor advances by \<open>d\<close>
  and the number cursor by 1. The result lists the number and the time of each URL.\<close>

type_synonym s_entry = "int \<times> int option \<times> int"

fun spec_repeat :: "int \<Rightarrow> nat \<Rightarrow> int \<Rightarrow> int \<Rightarrow> (int \<times> int) list" where
  "spec_repeat d 0 t n = []"
| "spec_repeat d (Suc k) t n = (n, t) # spec_repeat d k (t + d) (n + 1)"

fun spec_timeline :: "s_entry list \<Rightarrow> int \<Rightarrow> int \<Rightarrow> (int \<times> int) list" where
  "spec_timeline [] t n = []"
| "spec_timeline ((d, explicit_t, r) # es) t n =
     (let t0 = (case explicit_t of None \<Rightarrow> t | Some t' \<Rightarrow> t'); k = nat (r + 1)
      in spec_repeat d k t0 n @ spec_timeline es (t0 + int k * d) (n + int k))"

text \<open>What lines 100 to 107 read from an \<^verbatim>\<open>S\<close> element: nothing when it has no
  \<^verbatim>\<open>d\<close>, an exception when \<^verbatim>\<open>int\<close> raises.\<close>

definition read_s :: "'f pylib \<Rightarrow> element \<Rightarrow> exn + s_entry option" where
  "read_s L s_tag =
     (case get_attrib s_tag ''d'' of
        None \<Rightarrow> Inr None
      | Some d_str \<Rightarrow>
          (case py_int L d_str of
             Inl e \<Rightarrow> Inl e
           | Inr d \<Rightarrow>
               (case (case get_attrib s_tag ''t'' of
                        None \<Rightarrow> Inr None
                      | Some t_str \<Rightarrow> (case py_int L t_str of Inl e \<Rightarrow> Inl e | Inr t \<Rightarrow> Inr (Some t))) of
                  Inl e \<Rightarrow> Inl e
                | Inr explicit_t \<Rightarrow>
                    (case int_attrib L s_tag ''r'' 0 of
                       Inl e \<Rightarrow> Inl e
                     | Inr r \<Rightarrow> Inr (Some (d, explicit_t, r))))))"

text \<open>The entries that are there, in order.\<close>

definition present :: "'a option list \<Rightarrow> 'a list" where
  "present xs = map the (filter (\<lambda>x. x \<noteq> None) xs)"

text \<open>The names that the pattern of \<^verbatim>\<open>_format_template\<close> recognises between two dollar
  signs: \<^verbatim>\<open>Number\<close> or \<^verbatim>\<open>Time\<close>, alone or followed by a percent sign and letters
  and digits.\<close>

definition is_spec :: "string \<Rightarrow> bool" where
  "is_spec spec = (spec \<noteq> [] \<and> list_all is_alnum spec)"

definition recognised :: "string \<Rightarrow> bool" where
  "recognised name =
     (name = ''Number'' \<or> name = ''Time''
      \<or> (case strip_prefix ''Number%'' name of
            Some spec \<Rightarrow> is_spec spec
          | None \<Rightarrow> (case strip_prefix ''Time%'' name of Some spec \<Rightarrow> is_spec spec | None \<Rightarrow> False)))"

text \<open>A text put in front of the result of an expansion.\<close>

definition prepend :: "string \<Rightarrow> exn + string \<Rightarrow> exn + string" where
  "prepend p r = (case r of Inl e \<Rightarrow> Inl e | Inr out \<Rightarrow> Inr (p @ out))"

text \<open>A part of a duration as the specification describes it: a number, which is digits
  with an optional fraction of digits, and a unit. Its text, and the seconds it stands
  for: the value times 3600 for \<^verbatim>\<open>H\<close>, times 60 for \<^verbatim>\<open>M\<close>, the value for \<^verbatim>\<open>S\<close>.\<close>

type_synonym part = "string \<times> string option \<times> char"

definition part_ok :: "part \<Rightarrow> bool" where
  "part_ok p =
     (case p of (ip, fp, u) \<Rightarrow>
        ip \<noteq> [] \<and> list_all is_digit ip
        \<and> (case fp of None \<Rightarrow> True | Some f \<Rightarrow> f \<noteq> [] \<and> list_all is_digit f)
        \<and> is_unit u)"

definition part_number :: "part \<Rightarrow> string" where
  "part_number p = (case p of (ip, fp, u) \<Rightarrow> (case fp of None \<Rightarrow> ip | Some f \<Rightarrow> ip @ CHR ''.'' # f))"

definition part_text :: "part \<Rightarrow> string" where
  "part_text p = part_number p @ [snd (snd p)]"

definition part_seconds :: "'f pylib \<Rightarrow> part \<Rightarrow> 'f" where
  "part_seconds L p =
     (let v = py_float L (part_number p); u = snd (snd p) in
      if u = CHR ''H'' then fmul L v 3600 else if u = CHR ''M'' then fmul L v 60 else v)"

text \<open>How a later state of the task extends an earlier one: no URL that was in the set
  of sent URLs is requested or put into the queue again; the URLs newly put into the
  queue are pairwise different and are exactly the URLs added to the set; only segment
  contents are added to the queue.\<close>

definition extends :: "fetcher \<Rightarrow> fetcher \<Rightarrow> bool" where
  "extends st st' =
     (\<exists>new ys cs.
        requested st' = requested st @ new \<and> set new \<inter> sent_segments st = {}
        \<and> yielded st' = yielded st @ ys \<and> set ys \<inter> sent_segments st = {} \<and> distinct ys
        \<and> sent_segments st' = sent_segments st \<union> set ys
        \<and> queue st' = queue st @ map Some cs)"

text \<open>The script has run out: the task waits for an answer that the observation does
  not hold.\<close>

definition exhausted :: "script \<Rightarrow> bool" where
  "exhausted ev = (stops ev = [] \<or> gets ev = [] \<or> parses ev = [])"

section \<open>Further inputs\<close>

text \<open>Two video tracks and an audio track; the video track with the greatest bandwidth
  has no segment.\<close>

definition three_tracks :: tracks where
  "three_tracks =
     [(''Video_hi'', \<lparr>key = ''Video_hi'', tid = ''hi'', ttype = ''Video'', bandwidth = 900, urls = []\<rparr>),
      (''audio_a'', \<lparr>key = ''audio_a'', tid = ''a'', ttype = ''audio'', bandwidth = 950, urls = [''a1'']\<rparr>),
      (''VIDEO_lo'', \<lparr>key = ''VIDEO_lo'', tid = ''lo'', ttype = ''VIDEO'', bandwidth = 100, urls = [''s1'']\<rparr>)]"

text \<open>A manifest whose representation declares a bandwidth that is not a number: the
  exception of \<^verbatim>\<open>int\<close> is caught.\<close>

definition bad_bandwidth_mpd :: element where
  "bad_bandwidth_mpd =
     Element (mpd ''MPD'') []
       [Element (mpd ''Period'') []
          [Element (mpd ''AdaptationSet'') []
             [Element (mpd ''Representation'') [(''id'', ''a''), (''bandwidth'', ''fast'')]
                [Element (mpd ''SegmentTemplate'')
                   [(''initialization'', ''i''), (''media'', ''m'')]
                   [Element (mpd ''SegmentTimeline'') [] []]]]]]"

text \<open>Three segment templates: segments of four seconds; a segment duration of 0; an
  initialization pattern and a timeline without entries.\<close>

definition vod_template :: element where
  "vod_template =
     Element (mpd ''SegmentTemplate'')
       [(''initialization'', ''$RepresentationID$/init.mp4''),
        (''media'', ''$RepresentationID$/$Number$.m4s''),
        (''timescale'', ''1''), (''duration'', ''4'')] []"

definition zero_template :: element where
  "zero_template =
     Element (mpd ''SegmentTemplate'')
       [(''initialization'', ''$RepresentationID$/init.mp4''),
        (''media'', ''$RepresentationID$/$Number$.m4s''), (''duration'', ''0'')] []"

definition init_only_template :: element where
  "init_only_template =
     Element (mpd ''SegmentTemplate'')
       [(''initialization'', ''init.mp4''), (''media'', ''seg$Number$.m4s'')]
       [Element (mpd ''SegmentTimeline'') [] []]"

text \<open>A live session of two passes: the second manifest lists the two URLs of the first
  and a new one, and the request of the second URL fails in the first pass.\<close>

definition live_track :: "string list \<Rightarrow> track" where
  "live_track us = \<lparr>key = ''video_v0'', tid = ''v0'', ttype = ''video'', bandwidth = 1, urls = us\<rparr>"

definition live_script :: script where
  "live_script =
     \<lparr>stops = [False, False, False, False, False, False, False, True],
      gets = [Content ''A'', RequestFailed, Content ''B'', Content ''C''],
      parses = [Some ([(''video_v0'', live_track [''i'', ''s1''])], ''dynamic''),
                Some ([(''video_v0'', live_track [''i'', ''s1'', ''s2''])], ''dynamic'')]\<rparr>"

section \<open>Evaluation on concrete inputs\<close>

lemma lib0_simps:
  "py_int lib0 = dec_int"
  "py_str lib0 = (\<lambda>n. Inr (dec_str n))"
  "py_format lib0 = dec_format"
  "py_lower lib0 = ascii_lower"
  "urljoin lib0 = (\<lambda>b r. Inr (b @ r))"
  "py_float lib0 = dec_float"
  "fzero lib0 = 0"
  "fadd lib0 = (+)"
  "fmul lib0 = (\<lambda>x n. x * of_int n)"
  "fpos lib0 = (\<lambda>x. x > 0)"
  "int_truediv lib0 = (\<lambda>m n. if n = 0 then Inl OtherException else Inr (of_int m / of_int n))"
  "fdiv lib0 = (\<lambda>x y. if y = 0 then Inl OtherException else Inr (x / y))"
  "fceil lib0 = (\<lambda>x. Inr \<lceil>x\<rceil>)"
  by (simp_all add: lib0_def)

lemma replicate_numeral: "replicate (numeral k) x = x # replicate (pred_numeral k) x"
  by (simp add: numeral_eq_Suc)

lemma timeline_repeat_numeral:
  "timeline_repeat L base_url media_template rep_id d (numeral k) us current_time current_number =
     (case template_url L base_url media_template rep_id (Some current_number) (Some current_time) of
        Inl e \<Rightarrow> Inl e
      | Inr media_url \<Rightarrow>
          timeline_repeat L base_url media_template rep_id d (pred_numeral k) (us @ [media_url])
            (current_time + d) (current_number + 1))"
  by (simp add: numeral_eq_Suc)

text \<open>The equations that evaluate the definitions on concrete inputs.\<close>

lemmas eval_strings =
  startswith_def str_replace_def rsplit_head_def is_digit_def is_alnum_def is_unit_def Let_def

lemmas eval_lib =
  lib0_simps dec_int_def dec_str_def dec_format_def ascii_lower_def dec_float_def
  nat_of_digits_def digit_val_def digits_of.simps replicate_numeral

lemmas eval_template =
  match_name_def match_placeholder_def replace_func_def template_url_def

lemmas eval_duration =
  match_duration_def add_part_def parse_duration_def

lemmas eval_parser =
  mpd_def findall_def find_first_def get_attrib_def int_attrib_def segment_count_def
  init_urls_def media_urls_def parse_representation_def parse_mpd_try_def parse_mpd_def
  timeline_repeat_numeral upt_rec

section \<open>Track selection and the status of a stream request\<close>

lemma max_by_in: "max_by f x ys \<in> set (x # ys)"
  by (induction ys arbitrary: x) auto

lemma max_by_ge: "\<forall>y \<in> set (x # ys). f y \<le> f (max_by f x ys)"
proof (induction ys arbitrary: x)
  case Nil
  then show ?case by simp
next
  case (Cons z zs)
  let ?x' = "if f z > f x then z else x"
  from Cons [of ?x'] have ih: "\<forall>y\<in>set (?x' # zs). f y \<le> f (max_by f ?x' zs)" .
  then have "f ?x' \<le> f (max_by f ?x' zs)" by simp
  moreover have "f x \<le> f ?x'" "f z \<le> f ?x'" by auto
  ultimately have "f x \<le> f (max_by f ?x' zs)" "f z \<le> f (max_by f ?x' zs)"
    by (blast intro: order_trans)+
  with ih show ?case by simp
qed

lemma stream_Streaming:
  assumes "stream L stream_type (Some (ts, m)) = Streaming best m'"
  shows "m' = m \<and> (\<exists>k. (k, best) \<in> set ts \<and> contains (py_lower L k) stream_type) \<and> urls best \<noteq> []
     \<and> (\<forall>(k, t) \<in> set ts. contains (py_lower L k) stream_type \<and> urls t \<noteq> [] \<longrightarrow>
            bandwidth t \<le> bandwidth best)"
proof -
  let ?target = "filter (\<lambda>(k, v). contains (py_lower L k) stream_type) ts"
  let ?valid = "filter (\<lambda>(k, v). urls v \<noteq> [] \<and> length (urls v) > 0) ?target"
  from assms obtain t rest where v: "map snd ?valid = t # rest"
    and b: "best = max_by bandwidth t rest" and m: "m' = m"
    by (auto simp: stream_def Let_def split: if_splits list.splits)
  have "best \<in> set (map snd ?valid)" unfolding v b by (rule max_by_in)
  then have 1: "(\<exists>k. (k, best) \<in> set ts \<and> contains (py_lower L k) stream_type) \<and> urls best \<noteq> []"
    by auto
  have 2: "bandwidth u \<le> bandwidth best"
    if "(k, u) \<in> set ts" "contains (py_lower L k) stream_type" "urls u \<noteq> []" for k u
  proof -
    from that have "u \<in> set (map snd ?valid)" by force
    then show ?thesis unfolding v b using max_by_ge [of t rest bandwidth] by auto
  qed
  from m 1 2 show ?thesis by blast
qed

lemma stream_valid_Streaming:
  assumes "stream_type = ''video'' \<or> stream_type = ''audio''"
    and "(k, t) \<in> set ts" "contains (py_lower L k) stream_type" "urls t \<noteq> []"
  shows "\<exists>best. stream L stream_type (Some (ts, m)) = Streaming best m"
proof -
  let ?target = "filter (\<lambda>(k, v). contains (py_lower L k) stream_type) ts"
  let ?valid = "filter (\<lambda>(k, v). urls v \<noteq> [] \<and> length (urls v) > 0) ?target"
  from assms have "(k, t) \<in> set ?valid" by simp
  then have "map snd ?valid \<noteq> []" by (auto simp: filter_empty_conv)
  then obtain x xs where v: "map snd ?valid = x # xs" by (cases "map snd ?valid") auto
  from assms(2,3) have "?target \<noteq> []" by (auto simp: filter_empty_conv)
  moreover from assms(2) have "ts \<noteq> []" by auto
  ultimately show ?thesis using assms(1) v
    by (auto simp: stream_def Let_def)
qed

text \<open>
  Claim C5. Among the tracks of a parse, the handler of a \<^verbatim>\<open>video\<close> or
  \<^verbatim>\<open>audio\<close> request streams a track exactly when some track has a key whose lower
  case contains the requested kind and a segment list that is not empty. The track it
  streams is such a track, so never one with an empty segment list, and no such track
  has a greater bandwidth.
\<close>

theorem stream_selects_best:
  assumes "stream_type = ''video'' \<or> stream_type = ''audio''"
  shows "((\<exists>best. stream L stream_type (Some (ts, m)) = Streaming best m) \<longleftrightarrow>
           (\<exists>(k, t) \<in> set ts. contains (py_lower L k) stream_type \<and> urls t \<noteq> []))
       \<and> (\<forall>best m'. stream L stream_type (Some (ts, m)) = Streaming best m' \<longrightarrow>
             m' = m
           \<and> (\<exists>k. (k, best) \<in> set ts \<and> contains (py_lower L k) stream_type)
           \<and> urls best \<noteq> []
           \<and> (\<forall>(k, t) \<in> set ts. contains (py_lower L k) stream_type \<and> urls t \<noteq> [] \<longrightarrow>
                  bandwidth t \<le> bandwidth best))"
proof (intro conjI allI impI iffI)
  assume "\<exists>best. stream L stream_type (Some (ts, m)) = Streaming best m"
  then obtain best where "stream L stream_type (Some (ts, m)) = Streaming best m" ..
  from stream_Streaming [OF this]
  show "\<exists>(k, t) \<in> set ts. contains (py_lower L k) stream_type \<and> urls t \<noteq> []"
    by blast
next
  assume "\<exists>(k, t) \<in> set ts. contains (py_lower L k) stream_type \<and> urls t \<noteq> []"
  then obtain k t where "(k, t) \<in> set ts" "contains (py_lower L k) stream_type" "urls t \<noteq> []"
    by blast
  with assms show "\<exists>best. stream L stream_type (Some (ts, m)) = Streaming best m"
    by (rule stream_valid_Streaming)
next
  fix best m'
  assume s: "stream L stream_type (Some (ts, m)) = Streaming best m'"
  from stream_Streaming [OF s] show "m' = m" by blast
  from stream_Streaming [OF s]
  show "\<exists>k. (k, best) \<in> set ts \<and> contains (py_lower L k) stream_type" by blast
  from stream_Streaming [OF s] show "urls best \<noteq> []" by blast
  from stream_Streaming [OF s]
  show "\<forall>(k, t) \<in> set ts. contains (py_lower L k) stream_type \<and> urls t \<noteq> [] \<longrightarrow>
          bandwidth t \<le> bandwidth best" by blast
qed

text \<open>Of the video tracks of \<open>three_tracks\<close>, the one with segments is streamed,
  not the one with the greater bandwidth.\<close>

theorem stream_selects_best_witness:
  "stream lib0 ''video'' (Some (three_tracks, ''static'')) =
     Streaming \<lparr>key = ''VIDEO_lo'', tid = ''lo'', ttype = ''VIDEO'', bandwidth = 100, urls = [''s1'']\<rparr> ''static''
   \<and> (\<exists>(k, t) \<in> set three_tracks. contains (py_lower lib0 k) ''video'' \<and> urls t \<noteq> [])"
proof -
  have h: "''video'' = ''video'' \<or> ''video'' = ''audio''" by simp
  have e: "stream lib0 ''video'' (Some (three_tracks, ''static'')) =
     Streaming \<lparr>key = ''VIDEO_lo'', tid = ''lo'', ttype = ''VIDEO'', bandwidth = 100, urls = [''s1'']\<rparr> ''static''"
    by (simp add: stream_def three_tracks_def eval_strings eval_lib)
  with stream_selects_best [OF h, of lib0 three_tracks "''static''"] show ?thesis
    by blast
qed

section \<open>The tracks of a parse\<close>

lemma dict_set_subset: "set (dict_set ts k v) \<subseteq> insert (k, v) (set ts)"
  by (induction ts) (auto split: if_splits)

lemma key_in_fst: "(k, v) \<in> set ts \<Longrightarrow> k \<in> fst ` set ts"
  by force

lemma dict_set_keys:
  "map fst (dict_set ts k v) = (if k \<in> set (map fst ts) then map fst ts else map fst ts @ [k])"
  by (induction ts) (auto dest: key_in_fst)

lemma dict_set_distinct: "distinct (map fst ts) \<Longrightarrow> distinct (map fst (dict_set ts k v))"
  unfolding dict_set_keys by simp

lemma parse_representation_ok:
  "parse_representation L base_url root_el content_type segment_template rep = Inr (Some t) \<Longrightarrow>
     track_ok (key t) t"
  by (auto simp: parse_representation_def track_ok_def
      split: option.splits sum.splits if_splits)

lemma representation_loop_ok:
  "representation_loop L base_url root_el content_type segment_template reps ts = Inr ts' \<Longrightarrow>
   \<forall>(k, t) \<in> set ts. track_ok k t \<Longrightarrow> distinct (map fst ts) \<Longrightarrow>
   (\<forall>(k, t) \<in> set ts'. track_ok k t) \<and> distinct (map fst ts')"
proof (induction reps arbitrary: ts)
  case Nil
  then show ?case by simp
next
  case (Cons rep reps)
  show ?case
  proof (cases "parse_representation L base_url root_el content_type segment_template rep")
    case (Inl e)
    with Cons.prems show ?thesis by simp
  next
    case (Inr r)
    show ?thesis
    proof (cases r)
      case None
      with Inr Cons show ?thesis by simp
    next
      case (Some t)
      with Inr have ok: "track_ok (key t) t" by (simp add: parse_representation_ok)
      have "\<forall>(k, u) \<in> set (dict_set ts (key t) t). track_ok k u"
        using dict_set_subset [of ts "key t" t] ok Cons.prems(2) by auto
      moreover have "distinct (map fst (dict_set ts (key t) t))"
        using Cons.prems(3) by (rule dict_set_distinct)
      moreover have "representation_loop L base_url root_el content_type segment_template reps
                       (dict_set ts (key t) t) = Inr ts'"
        using Cons.prems(1) Inr Some by simp
      ultimately show ?thesis using Cons.IH by blast
    qed
  qed
qed

lemma adaptation_loop_ok:
  "adaptation_loop L base_url root_el sets ts = Inr ts' \<Longrightarrow>
   \<forall>(k, t) \<in> set ts. track_ok k t \<Longrightarrow> distinct (map fst ts) \<Longrightarrow>
   (\<forall>(k, t) \<in> set ts'. track_ok k t) \<and> distinct (map fst ts')"
proof (induction sets arbitrary: ts)
  case Nil
  then show ?case by simp
next
  case (Cons a rest)
  let ?ct = "case get_attrib a ''contentType'' of None \<Rightarrow> ''unknown'' | Some c \<Rightarrow> c"
  from Cons.prems(1) obtain ts1 where
    r: "representation_loop L base_url root_el ?ct (find_first a ''SegmentTemplate'')
          (findall a ''Representation'') ts = Inr ts1"
    and a: "adaptation_loop L base_url root_el rest ts1 = Inr ts'"
    by (auto simp: Let_def split: sum.splits)
  from representation_loop_ok [OF r Cons.prems(2,3)] Cons.IH [OF a] show ?case by blast
qed

lemma parse_mpd_ok:
  assumes "parse_mpd L got = Some (ts, m)"
  shows "(\<forall>(k, t) \<in> set ts. track_ok k t) \<and> distinct (map fst ts)"
proof -
  from assms obtain base_url root_el sets where
    "adaptation_loop L base_url root_el sets [] = Inr ts"
    by (auto simp: parse_mpd_def parse_mpd_try_def Let_def split: sum.splits option.splits)
  from adaptation_loop_ok [OF this] show ?thesis by simp
qed

text \<open>
  Claim C10. \<^verbatim>\<open>parse_mpd\<close> returns \<^verbatim>\<open>(None, None)\<close> or a pair of tracks and manifest
  type, whatever the request and the document give: a failed request, a malformed
  document, a document without a period and any exception raised inside the
  \<^verbatim>\<open>try\<close> block all give \<^verbatim>\<open>(None, None)\<close>. Every track of a returned map has a URL
  list that is not empty and is stored under its own \<^verbatim>\<open>key\<close> field, which is the
  content type, an underscore and the representation id; no key occurs twice.
\<close>

theorem parse_mpd_total:
  "(parse_mpd L got = None
     \<or> (\<exists>ts m. parse_mpd L got = Some (ts, m)
           \<and> (\<forall>(k, t) \<in> set ts. urls t \<noteq> [] \<and> key t = k \<and> k = ttype t @ ''_'' @ tid t)
           \<and> distinct (map fst ts)))
   \<and> parse_mpd L (Inl e) = None
   \<and> parse_mpd L (Inr (Response u None)) = None
   \<and> (find_first root_el ''Period'' = None \<longrightarrow>
        parse_mpd L (Inr (Response u (Some root_el))) = None)
   \<and> (\<forall>x. parse_mpd_try L got = Inl x \<longrightarrow> parse_mpd L got = None)"
proof -
  have 1: "parse_mpd L got = None
     \<or> (\<exists>ts m. parse_mpd L got = Some (ts, m)
           \<and> (\<forall>(k, t) \<in> set ts. urls t \<noteq> [] \<and> key t = k \<and> k = ttype t @ ''_'' @ tid t)
           \<and> distinct (map fst ts))"
  proof (cases "parse_mpd L got")
    case None
    then show ?thesis by simp
  next
    case (Some r)
    obtain ts m where r: "r = (ts, m)" by (cases r)
    from parse_mpd_ok [of L got ts m] Some r show ?thesis
      by (auto simp: track_ok_def)
  qed
  have 2: "parse_mpd L (Inl e) = None"
    by (simp add: parse_mpd_def parse_mpd_try_def)
  have 3: "parse_mpd L (Inr (Response u None)) = None"
    by (simp add: parse_mpd_def parse_mpd_try_def)
  have 4: "find_first root_el ''Period'' = None \<longrightarrow>
           parse_mpd L (Inr (Response u (Some root_el))) = None"
    by (simp add: parse_mpd_def parse_mpd_try_def Let_def)
  have 5: "\<forall>x. parse_mpd_try L got = Inl x \<longrightarrow> parse_mpd L got = None"
    by (simp add: parse_mpd_def)
  from 1 2 3 4 5 show ?thesis by blast
qed

lemma parse_timeline_mpd:
  "parse_mpd lib0 (Inr (Response ''http://h/a/b.mpd'' (Some timeline_mpd))) =
     Some ([(''video_v0'',
             \<lparr>key = ''video_v0'', tid = ''v0'', ttype = ''video'', bandwidth = 500000,
              urls = [''http://h/a/v0/init.mp4'', ''http://h/a/v0/1_0.m4s'',
                      ''http://h/a/v0/2_2.m4s'', ''http://h/a/v0/3_4.m4s'',
                      ''http://h/a/v0/4_6.m4s'']\<rparr>)], ''dynamic'')"
  by (simp add: timeline_mpd_def eval_strings eval_lib eval_template eval_parser)

lemma parse_bad_bandwidth_mpd:
  "parse_mpd_try lib0 (Inr (Response ''http://h/b.mpd'' (Some bad_bandwidth_mpd))) = Inl ValueError"
  by (simp add: bad_bandwidth_mpd_def eval_strings eval_lib eval_template eval_parser)

theorem parse_mpd_total_witness:
  "find_first (Element (mpd ''MPD'') [] []) ''Period'' = None
   \<and> parse_mpd lib0 (Inr (Response ''http://h/b.mpd'' (Some (Element (mpd ''MPD'') [] [])))) = None
   \<and> parse_mpd_try lib0 (Inr (Response ''http://h/b.mpd'' (Some bad_bandwidth_mpd))) = Inl ValueError
   \<and> parse_mpd lib0 (Inr (Response ''http://h/b.mpd'' (Some bad_bandwidth_mpd))) = None
   \<and> (\<exists>ts m. parse_mpd lib0 (Inr (Response ''http://h/a/b.mpd'' (Some timeline_mpd))) = Some (ts, m)
         \<and> list_all (\<lambda>(k, t). urls t \<noteq> [] \<and> key t = k \<and> k = ttype t @ ''_'' @ tid t) ts)"
proof -
  have p: "find_first (Element (mpd ''MPD'') [] []) ''Period'' = None"
    by (simp add: find_first_def findall_def)
  note a = parse_mpd_total [of lib0 "Inr (Response ''http://h/b.mpd'' (Some bad_bandwidth_mpd))"
      ValueError "''http://h/b.mpd''" "Element (mpd ''MPD'') [] []"]
  note b = parse_mpd_total [of lib0 "Inr (Response ''http://h/a/b.mpd'' (Some timeline_mpd))"
      ValueError "''http://h/b.mpd''" "Element (mpd ''MPD'') [] []"]
  from a p have 1: "parse_mpd lib0 (Inr (Response ''http://h/b.mpd'' (Some (Element (mpd ''MPD'') [] [])))) = None"
    by blast
  from a parse_bad_bandwidth_mpd
  have 2: "parse_mpd lib0 (Inr (Response ''http://h/b.mpd'' (Some bad_bandwidth_mpd))) = None"
    by blast
  from b parse_timeline_mpd
  have 3: "\<exists>ts m. parse_mpd lib0 (Inr (Response ''http://h/a/b.mpd'' (Some timeline_mpd))) = Some (ts, m)
         \<and> list_all (\<lambda>(k, t). urls t \<noteq> [] \<and> key t = k \<and> k = ttype t @ ''_'' @ tid t) ts"
    by (simp add: list_all_iff)
  from p 1 parse_bad_bandwidth_mpd 2 3 show ?thesis by blast
qed

section \<open>The status of a stream request\<close>

lemma stream_None: "stream L stream_type None = (if stream_type \<in> {''video'', ''audio''} then Abort 500 else Abort 404)"
  by (simp add: stream_def)

lemma stream_Some_cases:
  assumes "stream_type = ''video'' \<or> stream_type = ''audio''"
  shows "(ts = [] \<and> stream L stream_type (Some (ts, m)) = Abort 500)
     \<or> (ts \<noteq> [] \<and> \<not> (\<exists>(k, t) \<in> set ts. contains (py_lower L k) stream_type)
         \<and> stream L stream_type (Some (ts, m)) = Abort 404)
     \<or> (ts \<noteq> [] \<and> (\<exists>(k, t) \<in> set ts. contains (py_lower L k) stream_type)
         \<and> (\<forall>(k, t) \<in> set ts. contains (py_lower L k) stream_type \<longrightarrow> urls t = [])
         \<and> stream L stream_type (Some (ts, m)) = Abort 500)
     \<or> (ts \<noteq> [] \<and> (\<exists>(k, t) \<in> set ts. contains (py_lower L k) stream_type)
         \<and> \<not> (\<forall>(k, t) \<in> set ts. contains (py_lower L k) stream_type \<longrightarrow> urls t = [])
         \<and> (\<exists>best. stream L stream_type (Some (ts, m)) = Streaming best m))"
proof -
  let ?target = "filter (\<lambda>(k, v). contains (py_lower L k) stream_type) ts"
  let ?valid = "filter (\<lambda>(k, v). urls v \<noteq> [] \<and> length (urls v) > 0) ?target"
  have t: "?target = [] \<longleftrightarrow> \<not> (\<exists>(k, t) \<in> set ts. contains (py_lower L k) stream_type)"
    by (auto simp: filter_empty_conv)
  have v: "map snd ?valid = [] \<longleftrightarrow>
           (\<forall>(k, t) \<in> set ts. contains (py_lower L k) stream_type \<longrightarrow> urls t = [])"
    by (auto simp: filter_empty_conv)
  have kind: "stream_type \<in> set [''video'', ''audio'']" using assms by auto
  consider (e) "ts = []" | (n) "ts \<noteq> []" "?target = []"
    | (u) "ts \<noteq> []" "?target \<noteq> []" "map snd ?valid = []"
    | (s) "ts \<noteq> []" "?target \<noteq> []" "map snd ?valid \<noteq> []"
    by blast
  then show ?thesis
  proof cases
    case e
    then show ?thesis using kind by (simp add: stream_def)
  next
    case n
    have "stream L stream_type (Some (ts, m)) = Abort 404"
      using kind n by (simp add: stream_def Let_def)
    with n t show ?thesis by blast
  next
    case u
    have "stream L stream_type (Some (ts, m)) = Abort 500"
      using kind u by (simp add: stream_def Let_def)
    with u t v show ?thesis by blast
  next
    case s
    then obtain x xs where "map snd ?valid = x # xs" by (cases "map snd ?valid") auto
    with kind s have "stream L stream_type (Some (ts, m)) = Streaming (max_by bandwidth x xs) m"
      by (simp add: stream_def Let_def)
    with s t v show ?thesis by blast
  qed
qed

text \<open>
  Claim C1, amended. For a \<^verbatim>\<open>video\<close> or \<^verbatim>\<open>audio\<close> request the handler aborts with
  404 exactly when the parse gave at least one track and no key contains the requested
  kind. It aborts with 500 exactly when \<^verbatim>\<open>parse_mpd\<close> gave \<^verbatim>\<open>None\<close>, or gave no
  track at all, or gave tracks whose keys contain the kind, all with an empty URL list;
  on a result of \<^verbatim>\<open>parse_mpd\<close> itself the last case does not occur. No other status
  is used to abort.
\<close>

theorem stream_status:
  assumes "stream_type = ''video'' \<or> stream_type = ''audio''"
  shows "(stream L stream_type parsed = Abort 404 \<longleftrightarrow>
            (\<exists>ts m. parsed = Some (ts, m) \<and> ts \<noteq> []
               \<and> (\<forall>(k, t) \<in> set ts. \<not> contains (py_lower L k) stream_type)))
       \<and> (stream L stream_type parsed = Abort 500 \<longleftrightarrow>
            (parsed = None
             \<or> (\<exists>ts m. parsed = Some (ts, m)
                  \<and> (ts = []
                      \<or> ((\<exists>(k, t) \<in> set ts. contains (py_lower L k) stream_type)
                          \<and> (\<forall>(k, t) \<in> set ts. contains (py_lower L k) stream_type \<longrightarrow> urls t = []))))))
       \<and> (stream L stream_type (parse_mpd L got) = Abort 500 \<longleftrightarrow>
            (parse_mpd L got = None \<or> (\<exists>m. parse_mpd L got = Some ([], m))))
       \<and> (\<forall>n. stream L stream_type parsed = Abort n \<longrightarrow> n = 404 \<or> n = 500)"
proof -
  define P where "P = (\<lambda>ts :: tracks. \<exists>(k, t) \<in> set ts. contains (py_lower L k) stream_type)"
  define Q where
    "Q = (\<lambda>ts :: tracks. \<forall>(k, t) \<in> set ts. contains (py_lower L k) stream_type \<longrightarrow> urls t = [])"
  have nP: "(\<forall>(k, t) \<in> set ts. \<not> contains (py_lower L k) stream_type) \<longleftrightarrow> \<not> P ts" for ts
    by (auto simp: P_def)
  have none: "stream L stream_type None = Abort 500"
    using assms by (auto simp: stream_None)
  have cs: "(ts = [] \<and> stream L stream_type (Some (ts, m)) = Abort 500)
     \<or> (ts \<noteq> [] \<and> \<not> P ts \<and> stream L stream_type (Some (ts, m)) = Abort 404)
     \<or> (ts \<noteq> [] \<and> P ts \<and> Q ts \<and> stream L stream_type (Some (ts, m)) = Abort 500)
     \<or> (ts \<noteq> [] \<and> P ts \<and> \<not> Q ts \<and> (\<exists>best. stream L stream_type (Some (ts, m)) = Streaming best m))"
    for ts m
    unfolding P_def Q_def by (rule stream_Some_cases [OF assms])
  have 1: "stream L stream_type parsed = Abort 404 \<longleftrightarrow>
            (\<exists>ts m. parsed = Some (ts, m) \<and> ts \<noteq> [] \<and> \<not> P ts)"
  proof (cases parsed)
    case None
    with none show ?thesis by simp
  next
    case (Some r)
    obtain ts m where r: "r = (ts, m)" by (cases r)
    show ?thesis unfolding Some r using cs [of ts m] by auto
  qed
  have 2: "stream L stream_type parsed = Abort 500 \<longleftrightarrow>
            (parsed = None \<or> (\<exists>ts m. parsed = Some (ts, m) \<and> (ts = [] \<or> (P ts \<and> Q ts))))"
    for parsed
  proof (cases parsed)
    case None
    with none show ?thesis by simp
  next
    case (Some r)
    obtain ts m where r: "r = (ts, m)" by (cases r)
    show ?thesis unfolding Some r using cs [of ts m] by auto
  qed
  have 3: "stream L stream_type (parse_mpd L got) = Abort 500 \<longleftrightarrow>
            (parse_mpd L got = None \<or> (\<exists>m. parse_mpd L got = Some ([], m)))"
  proof (cases "parse_mpd L got")
    case None
    with none show ?thesis by simp
  next
    case (Some r)
    obtain ts m where r: "r = (ts, m)" by (cases r)
    from parse_mpd_ok [of L got ts m] Some r
    have "\<forall>(k, t) \<in> set ts. urls t \<noteq> []" by (auto simp: track_ok_def)
    then have "\<not> (P ts \<and> Q ts)" by (auto simp: P_def Q_def)
    then show ?thesis using 2 [of "parse_mpd L got"] unfolding Some r by auto
  qed
  have 4: "\<forall>n. stream L stream_type parsed = Abort n \<longrightarrow> n = 404 \<or> n = 500"
    by (auto simp: stream_def Let_def split: option.splits if_splits list.splits)
  from 1 2 [of parsed] 3 4 show ?thesis unfolding nP unfolding P_def Q_def by blast
qed

theorem stream_status_witness:
  "stream lib0 ''audio'' (parse_mpd lib0 (Inr (Response ''http://h/a/b.mpd'' (Some timeline_mpd)))) = Abort 404
   \<and> stream lib0 ''audio'' (parse_mpd lib0 (Inr (Response ''http://h/a/b.mpd'' (Some timeline_mpd)))) \<noteq> Abort 500"
proof -
  have h: "''audio'' = ''video'' \<or> ''audio'' = ''audio''" by simp
  have c: "\<forall>(k, t) \<in> set [(''video_v0'',
             \<lparr>key = ''video_v0'', tid = ''v0'', ttype = ''video'', bandwidth = 500000,
              urls = [''http://h/a/v0/init.mp4'', ''http://h/a/v0/1_0.m4s'',
                      ''http://h/a/v0/2_2.m4s'', ''http://h/a/v0/3_4.m4s'',
                      ''http://h/a/v0/4_6.m4s'']\<rparr>)]. \<not> contains (py_lower lib0 k) ''audio''"
    by (simp add: eval_strings eval_lib)
  from stream_status [OF h, of lib0 "parse_mpd lib0 (Inr (Response ''http://h/a/b.mpd'' (Some timeline_mpd)))"
      "Inr (Response ''http://h/a/b.mpd'' (Some timeline_mpd))"] c
  show ?thesis unfolding parse_timeline_mpd by simp
qed

text \<open>The claim as it is written fails: a manifest that is fetched and parsed, with a
  period and no representation, gives 500 and not 404; so do tracks of the requested
  kind whose URL lists are all empty.\<close>

theorem stream_status_counterexample:
  "parse_mpd lib0 (Inr (Response ''http://h/a/b.mpd'' (Some empty_mpd))) = Some ([], ''static'')
   \<and> stream lib0 ''video'' (parse_mpd lib0 (Inr (Response ''http://h/a/b.mpd'' (Some empty_mpd)))) = Abort 500
   \<and> stream lib0 ''video''
        (Some ([(''video_v0'', \<lparr>key = ''video_v0'', tid = ''v0'', ttype = ''video'',
                                bandwidth = 1, urls = []\<rparr>)], ''static'')) = Abort 500"
  by (simp add: empty_mpd_def stream_def eval_strings eval_lib eval_parser)

section \<open>Timeline enumeration\<close>

lemma spec_repeat_closed:
  "spec_repeat d k t n = map (\<lambda>i. (n + int i, t + int i * d)) [0 ..< k]"
proof (induction k arbitrary: t n)
  case 0
  then show ?case by simp
next
  case (Suc k)
  have "[0 ..< Suc k] = 0 # map Suc [0 ..< k]"
    by (simp add: upt_conv_Cons map_Suc_upt del: upt_Suc)
  then show ?case
    by (simp add: Suc.IH algebra_simps comp_def del: upt_Suc)
qed

lemma spec_repeat_numeral:
  "spec_repeat d (numeral k) t n = (n, t) # spec_repeat d (pred_numeral k) (t + d) (n + 1)"
  by (simp add: numeral_eq_Suc)

lemma timeline_repeat_spec:
  "\<forall>(n', t') \<in> set (spec_repeat d k t n).
      template_url L base_url media_template rep_id (Some n') (Some t') = Inr (u n' t') \<Longrightarrow>
   timeline_repeat L base_url media_template rep_id d k us t n =
     Inr (us @ map (\<lambda>(n', t'). u n' t') (spec_repeat d k t n), t + int k * d, n + int k)"
proof (induction k arbitrary: us t n)
  case 0
  then show ?case by simp
next
  case (Suc k)
  from Suc.prems have
    h: "template_url L base_url media_template rep_id (Some n) (Some t) = Inr (u n t)"
    and r: "\<forall>(n', t') \<in> set (spec_repeat d k (t + d) (n + 1)).
              template_url L base_url media_template rep_id (Some n') (Some t') = Inr (u n' t')"
    by auto
  have "timeline_repeat L base_url media_template rep_id d (Suc k) us t n =
        timeline_repeat L base_url media_template rep_id d k (us @ [u n t]) (t + d) (n + 1)"
    by (simp add: h)
  also have "\<dots> = Inr ((us @ [u n t]) @ map (\<lambda>(n', t'). u n' t') (spec_repeat d k (t + d) (n + 1)),
                      t + d + int k * d, n + 1 + int k)"
    by (rule Suc.IH [OF r])
  finally show ?case by (simp add: algebra_simps)
qed

lemma read_s_None:
  "read_s L s = Inr None \<Longrightarrow> get_attrib s ''d'' = None"
  by (auto simp: read_s_def split: option.splits sum.splits)

lemma timeline_loop_skip:
  "read_s L s = Inr None \<Longrightarrow>
   timeline_loop L base_url media_template rep_id (s # ss) us t n =
   timeline_loop L base_url media_template rep_id ss us t n"
  by (simp add: read_s_None)

lemma timeline_loop_entry:
  "read_s L s = Inr (Some (d, explicit_t, r)) \<Longrightarrow>
   timeline_loop L base_url media_template rep_id (s # ss) us t n =
     (case timeline_repeat L base_url media_template rep_id d (nat (r + 1)) us
             (case explicit_t of None \<Rightarrow> t | Some t' \<Rightarrow> t') n of
        Inl e \<Rightarrow> Inl e
      | Inr (us', t', n') \<Rightarrow> timeline_loop L base_url media_template rep_id ss us' t' n')"
  by (auto simp: read_s_def split: option.splits sum.splits)

lemma timeline_loop_spec:
  "map (read_s L) s_tags = map Inr es \<Longrightarrow>
   \<forall>(n', t') \<in> set (spec_timeline (present es) t n).
      template_url L base_url media_template rep_id (Some n') (Some t') = Inr (u n' t') \<Longrightarrow>
   timeline_loop L base_url media_template rep_id s_tags us t n =
     Inr (us @ map (\<lambda>(n', t'). u n' t') (spec_timeline (present es) t n))"
proof (induction s_tags arbitrary: es us t n)
  case Nil
  then show ?case by (simp add: present_def)
next
  case (Cons s ss)
  from Cons.prems(1) obtain e es' where es: "es = e # es'" and s: "read_s L s = Inr e"
    and ss: "map (read_s L) ss = map Inr es'"
    by (cases es) auto
  show ?case
  proof (cases e)
    case None
    with es have p: "present es = present es'" by (simp add: present_def)
    from s None have "read_s L s = Inr None" by simp
    from timeline_loop_skip [OF this] Cons.IH [OF ss] Cons.prems(2) show ?thesis
      unfolding p by simp
  next
    case (Some x)
    obtain d explicit_t r where x: "x = (d, explicit_t, r)" by (cases x)
    let ?t0 = "case explicit_t of None \<Rightarrow> t | Some t' \<Rightarrow> t'"
    let ?k = "nat (r + 1)"
    from es Some x have p: "present es = (d, explicit_t, r) # present es'"
      by (simp add: present_def)
    from Cons.prems(2) have
      a: "\<forall>(n', t') \<in> set (spec_repeat d ?k ?t0 n).
            template_url L base_url media_template rep_id (Some n') (Some t') = Inr (u n' t')"
      and b: "\<forall>(n', t') \<in> set (spec_timeline (present es') (?t0 + int ?k * d) (n + int ?k)).
            template_url L base_url media_template rep_id (Some n') (Some t') = Inr (u n' t')"
      unfolding p by (auto simp: Let_def)
    from s Some x have "read_s L s = Inr (Some (d, explicit_t, r))" by simp
    from timeline_loop_entry [OF this] timeline_repeat_spec [OF a] Cons.IH [OF ss b]
    show ?thesis unfolding p by (simp add: Let_def)
  qed
qed

text \<open>
  Claim C3. When the attributes of the \<^verbatim>\<open>S\<close> elements are integers and the media
  pattern expands, the timeline loop appends, in document order, one URL for each
  number and time of the timeline of the specification: \<open>r + 1\<close> URLs for an entry of
  repeat count \<open>r\<close> (none when \<open>r + 1\<close> is negative), the time advancing by \<open>d\<close> and
  the number by 1 after each, an explicit \<open>t\<close> replacing the time cursor and an entry
  without \<open>d\<close> being skipped. The parser starts the loop at time 0 and number
  \<^verbatim>\<open>startNumber\<close>.
\<close>

theorem timeline_enumeration:
  assumes "map (read_s L) s_tags = map Inr es"
    and "\<forall>(n', t') \<in> set (spec_timeline (present es) t n).
           template_url L base_url media_template rep_id (Some n') (Some t') = Inr (u n' t')"
  shows "timeline_loop L base_url media_template rep_id s_tags us t n =
           Inr (us @ map (\<lambda>(n', t'). u n' t') (spec_timeline (present es) t n))
       \<and> (find_first current_template ''SegmentTimeline'' = Some timeline
            \<and> findall timeline ''S'' = s_tags
            \<and> int_attrib L current_template ''startNumber'' 1 = Inr n \<and> t = 0 \<longrightarrow>
          media_urls L base_url root_el current_template rep_id media_template us =
            Inr (Some (us @ map (\<lambda>(n', t'). u n' t') (spec_timeline (present es) 0 n))))
       \<and> (\<forall>d k t n. spec_repeat d k t n = map (\<lambda>i. (n + int i, t + int i * d)) [0 ..< k])"
proof -
  have 1: "timeline_loop L base_url media_template rep_id s_tags us t n =
           Inr (us @ map (\<lambda>(n', t'). u n' t') (spec_timeline (present es) t n))"
    using assms by (rule timeline_loop_spec)
  have 2: "media_urls L base_url root_el current_template rep_id media_template us =
            Inr (Some (us @ map (\<lambda>(n', t'). u n' t') (spec_timeline (present es) 0 n)))"
    if "find_first current_template ''SegmentTimeline'' = Some timeline"
      "findall timeline ''S'' = s_tags"
      "int_attrib L current_template ''startNumber'' 1 = Inr n" "t = 0"
    using that 1 by (simp add: media_urls_def)
  from 1 2 spec_repeat_closed show ?thesis by blast
qed

text \<open>The timeline \<^verbatim>\<open><S d="2" r="2"/><S d="3"/>\<close> with start number 1: four URLs, with
  the numbers 1, 2, 3, 4 and the times 0, 2, 4, 6.\<close>

theorem timeline_enumeration_witness:
  "spec_timeline [(2, None, 2), (3, None, 0)] 0 1 = [(1, 0), (2, 2), (3, 4), (4, 6)]
   \<and> timeline_loop lib0 ''http://h/'' ''$RepresentationID$/$Number$_$Time$.m4s'' ''v0''
       [Element (mpd ''S'') [(''d'', ''2''), (''r'', ''2'')] [], Element (mpd ''S'') [(''d'', ''3'')] []]
       [''http://h/v0/init.mp4''] 0 1 =
     Inr [''http://h/v0/init.mp4'', ''http://h/v0/1_0.m4s'', ''http://h/v0/2_2.m4s'',
          ''http://h/v0/3_4.m4s'', ''http://h/v0/4_6.m4s'']"
proof -
  let ?u = "\<lambda>n t. ''http://h/v0/'' @ dec_str n @ ''_'' @ dec_str t @ ''.m4s''"
  have s: "spec_timeline [(2, None, 2), (3, None, 0)] 0 1 = [(1, 0), (2, 2), (3, 4), (4, 6)]"
    by (simp add: spec_repeat_numeral Let_def)
  have r: "map (read_s lib0)
             [Element (mpd ''S'') [(''d'', ''2''), (''r'', ''2'')] [], Element (mpd ''S'') [(''d'', ''3'')] []] =
           map Inr [Some (2, None, 2), Some (3, None, 0)]"
    by (simp add: read_s_def eval_strings eval_lib eval_parser)
  have p: "present [Some (2, None, 2), Some (3, None, 0)] = [(2, None, 2), (3, None, 0 :: int)]"
    by (simp add: present_def)
  have e: "\<forall>(n', t') \<in> set (spec_timeline (present [Some (2, None, 2), Some (3, None, 0)]) 0 1).
             template_url lib0 ''http://h/'' ''$RepresentationID$/$Number$_$Time$.m4s'' ''v0''
               (Some n') (Some t') = Inr (?u n' t')"
    unfolding p s by (simp add: eval_strings eval_lib eval_template)
  from timeline_enumeration [OF r e, of "[''http://h/v0/init.mp4'']"] s
  show ?thesis unfolding p s by (simp add: eval_lib)
qed

section \<open>Duration-based enumeration\<close>

lemma vod_loop_urls:
  "\<forall>i \<in> set is. template_url L base_url media_template rep_id (Some (start_number + int i)) None
                   = Inr (u (start_number + int i)) \<Longrightarrow>
   vod_loop L base_url media_template rep_id start_number is us =
     Inr (us @ map (\<lambda>i. u (start_number + int i)) is)"
  by (induction "is" arbitrary: us) auto

text \<open>
  Claim C4. For a template without a timeline whose \<^verbatim>\<open>startNumber\<close>, \<^verbatim>\<open>timescale\<close>
  (default 1) and \<^verbatim>\<open>duration\<close> (default 0) are integers: when the duration, the
  timescale and the total duration of the presentation are positive, the number of media
  URLs is the ceiling of the total duration divided by the quotient of duration and
  timescale, and the URLs are the expansions of the media pattern with the numbers
  \<^verbatim>\<open>startNumber\<close>, \<^verbatim>\<open>startNumber + 1\<close>, ... and no time. When one of the three is
  not positive, there is no media URL and the representation is skipped.
\<close>

theorem duration_enumeration:
  assumes "find_first current_template ''SegmentTimeline'' = None"
    and "int_attrib L current_template ''startNumber'' 1 = Inr start_number"
    and "int_attrib L current_template ''timescale'' 1 = Inr timescale"
    and "int_attrib L current_template ''duration'' 0 = Inr seg_duration_units"
    and "media_duration = parse_duration L (get_attrib root_el ''mediaPresentationDuration'')"
  shows "(seg_duration_units > 0 \<and> timescale > 0 \<and> fpos L media_duration
            \<and> int_truediv L seg_duration_units timescale = Inr segment_len_secs
            \<and> fdiv L media_duration segment_len_secs = Inr q
            \<and> fceil L q = Inr c
            \<and> (\<forall>i \<in> set [0 ..< nat c].
                  template_url L base_url media_template rep_id (Some (start_number + int i)) None
                    = Inr (u (start_number + int i))) \<longrightarrow>
          media_urls L base_url root_el current_template rep_id media_template us =
            Inr (Some (us @ map (\<lambda>i. u (start_number + int i)) [0 ..< nat c])))
       \<and> (\<not> (seg_duration_units > 0 \<and> timescale > 0 \<and> fpos L media_duration) \<longrightarrow>
          media_urls L base_url root_el current_template rep_id media_template us = Inr None
          \<and> (get_attrib rep ''id'' = Some rep_id \<and> rep_id \<noteq> []
               \<and> find_first rep ''SegmentTemplate'' = Some current_template
               \<and> init_urls L base_url current_template rep_id = Inr us
               \<and> get_attrib current_template ''media'' = Some media_template
               \<and> media_template \<noteq> [] \<longrightarrow>
             parse_representation L base_url root_el content_type segment_template rep = Inr None))
       \<and> (get_attrib current_template ''timescale'' = None \<longrightarrow> timescale = 1)
       \<and> (get_attrib current_template ''startNumber'' = None \<longrightarrow> start_number = 1)"
proof -
  have 1: "media_urls L base_url root_el current_template rep_id media_template us =
            Inr (Some (us @ map (\<lambda>i. u (start_number + int i)) [0 ..< nat c]))"
    if "seg_duration_units > 0" "timescale > 0" "fpos L media_duration"
      "int_truediv L seg_duration_units timescale = Inr segment_len_secs"
      "fdiv L media_duration segment_len_secs = Inr q" "fceil L q = Inr c"
      "\<forall>i \<in> set [0 ..< nat c].
          template_url L base_url media_template rep_id (Some (start_number + int i)) None
            = Inr (u (start_number + int i))"
  proof -
    have "segment_count L media_duration seg_duration_units timescale = Inr c"
      using that by (simp add: segment_count_def)
    moreover have "vod_loop L base_url media_template rep_id start_number [0 ..< nat c] us =
        Inr (us @ map (\<lambda>i. u (start_number + int i)) [0 ..< nat c])"
      using that(7) by (rule vod_loop_urls)
    ultimately show ?thesis
      using assms that(1-3) by (simp add: media_urls_def Let_def)
  qed
  have 2: "media_urls L base_url root_el current_template rep_id media_template us = Inr None"
    if "\<not> (seg_duration_units > 0 \<and> timescale > 0 \<and> fpos L media_duration)"
    using assms that by (auto simp: media_urls_def Let_def)
  have 3: "parse_representation L base_url root_el content_type segment_template rep = Inr None"
    if "\<not> (seg_duration_units > 0 \<and> timescale > 0 \<and> fpos L media_duration)"
      "get_attrib rep ''id'' = Some rep_id" "rep_id \<noteq> []"
      "find_first rep ''SegmentTemplate'' = Some current_template"
      "init_urls L base_url current_template rep_id = Inr us"
      "get_attrib current_template ''media'' = Some media_template" "media_template \<noteq> []"
    using that 2 [OF that(1)] by (simp add: parse_representation_def)
  have 4: "get_attrib current_template ''timescale'' = None \<longrightarrow> timescale = 1"
    using assms(3) by (auto simp: int_attrib_def)
  have 5: "get_attrib current_template ''startNumber'' = None \<longrightarrow> start_number = 1"
    using assms(2) by (auto simp: int_attrib_def)
  from 1 2 3 4 5 show ?thesis by blast
qed

text \<open>Twenty seconds in segments of four seconds give five media URLs, numbered from 1;
  with a segment duration of 0 the representation is skipped.\<close>

theorem duration_enumeration_witness:
  "media_urls lib0 ''http://h/'' vod_mpd vod_template ''v0'' ''$RepresentationID$/$Number$.m4s''
     [''http://h/v0/init.mp4''] =
   Inr (Some [''http://h/v0/init.mp4'', ''http://h/v0/1.m4s'', ''http://h/v0/2.m4s'',
              ''http://h/v0/3.m4s'', ''http://h/v0/4.m4s'', ''http://h/v0/5.m4s''])
   \<and> parse_representation lib0 ''http://h/'' vod_mpd ''video'' None
        (Element (mpd ''Representation'') [(''id'', ''v0'')] [zero_template]) = Inr None"
proof -
  let ?u = "\<lambda>n. ''http://h/v0/'' @ dec_str n @ ''.m4s''"
  have a: "find_first vod_template ''SegmentTimeline'' = None"
    "int_attrib lib0 vod_template ''startNumber'' 1 = Inr 1"
    "int_attrib lib0 vod_template ''timescale'' 1 = Inr 1"
    "int_attrib lib0 vod_template ''duration'' 0 = Inr 4"
    "20 = parse_duration lib0 (get_attrib vod_mpd ''mediaPresentationDuration'')"
    by (simp_all add: vod_template_def vod_mpd_def eval_strings eval_lib eval_duration eval_parser)
  have b: "(4 :: int) > 0 \<and> (1 :: int) > 0 \<and> fpos lib0 20
            \<and> int_truediv lib0 4 1 = Inr 4 \<and> fdiv lib0 20 4 = Inr 5 \<and> fceil lib0 5 = Inr 5
            \<and> (\<forall>i \<in> set [0 ..< nat 5].
                  template_url lib0 ''http://h/'' ''$RepresentationID$/$Number$.m4s'' ''v0''
                    (Some (1 + int i)) None = Inr (?u (1 + int i)))"
    by (simp add: eval_strings eval_lib eval_template upt_rec)
  have z: "find_first zero_template ''SegmentTimeline'' = None"
    "int_attrib lib0 zero_template ''startNumber'' 1 = Inr 1"
    "int_attrib lib0 zero_template ''timescale'' 1 = Inr 1"
    "int_attrib lib0 zero_template ''duration'' 0 = Inr 0"
    "20 = parse_duration lib0 (get_attrib vod_mpd ''mediaPresentationDuration'')"
    by (simp_all add: zero_template_def vod_mpd_def eval_strings eval_lib eval_duration eval_parser)
  have r: "get_attrib (Element (mpd ''Representation'') [(''id'', ''v0'')] [zero_template]) ''id'' = Some ''v0''
      \<and> ''v0'' \<noteq> []
      \<and> find_first (Element (mpd ''Representation'') [(''id'', ''v0'')] [zero_template]) ''SegmentTemplate''
          = Some zero_template
      \<and> init_urls lib0 ''http://h/'' zero_template ''v0'' = Inr [''http://h/v0/init.mp4'']
      \<and> get_attrib zero_template ''media'' = Some ''$RepresentationID$/$Number$.m4s''
      \<and> ''$RepresentationID$/$Number$.m4s'' \<noteq> []"
    by (simp add: zero_template_def eval_strings eval_lib eval_template eval_parser)
  from duration_enumeration [OF a, of 4 5 5 "''http://h/''" "''$RepresentationID$/$Number$.m4s''"
      "''v0''" ?u "[''http://h/v0/init.mp4'']"] b
  have 1: "media_urls lib0 ''http://h/'' vod_mpd vod_template ''v0'' ''$RepresentationID$/$Number$.m4s''
     [''http://h/v0/init.mp4''] =
     Inr (Some ([''http://h/v0/init.mp4''] @ map (\<lambda>i. ?u (1 + int i)) [0 ..< nat 5]))"
    by blast
  from duration_enumeration [OF z, of 4 5 5 "''http://h/''" "''$RepresentationID$/$Number$.m4s''"
      "''v0''" ?u "[''http://h/v0/init.mp4'']"
      "Element (mpd ''Representation'') [(''id'', ''v0'')] [zero_template]" "''video''" None] r
  have 2: "parse_representation lib0 ''http://h/'' vod_mpd ''video'' None
        (Element (mpd ''Representation'') [(''id'', ''v0'')] [zero_template]) = Inr None"
    by simp
  from 1 2 show ?thesis by (simp add: eval_lib upt_rec)
qed

section \<open>When a representation is recorded\<close>

lemma timeline_repeat_appends:
  "timeline_repeat L base_url media_template rep_id d k us t n = Inr (us', t', n') \<Longrightarrow>
   \<exists>ms. us' = us @ ms \<and> length ms = k"
proof (induction k arbitrary: us t n)
  case 0
  then show ?case by simp
next
  case (Suc k)
  from Suc.prems obtain m where
    "timeline_repeat L base_url media_template rep_id d k (us @ [m]) (t + d) (n + 1) = Inr (us', t', n')"
    by (auto split: sum.splits)
  from Suc.IH [OF this] obtain ms where "us' = (us @ [m]) @ ms" "length ms = k" by blast
  then have "us' = us @ (m # ms) \<and> length (m # ms) = Suc k" by simp
  then show ?case by blast
qed

lemma timeline_loop_appends:
  "timeline_loop L base_url media_template rep_id s_tags us t n = Inr us' \<Longrightarrow> \<exists>ms. us' = us @ ms"
proof (induction s_tags arbitrary: us t n)
  case Nil
  then show ?case by simp
next
  case (Cons s ss)
  show ?case
  proof (cases "get_attrib s ''d''")
    case None
    with Cons.prems have "timeline_loop L base_url media_template rep_id ss us t n = Inr us'"
      by simp
    then show ?thesis by (rule Cons.IH)
  next
    case (Some d_str)
    with Cons.prems obtain d k t0 us1 t1 n1 where
      r: "timeline_repeat L base_url media_template rep_id d k us t0 n = Inr (us1, t1, n1)"
      and l: "timeline_loop L base_url media_template rep_id ss us1 t1 n1 = Inr us'"
      by (auto split: sum.splits option.splits)
    from timeline_repeat_appends [OF r] obtain ms where "us1 = us @ ms" by blast
    moreover from Cons.IH [OF l] obtain ms' where "us' = us1 @ ms'" by blast
    ultimately have "us' = us @ (ms @ ms')" by simp
    then show ?thesis by blast
  qed
qed

lemma vod_loop_appends:
  "vod_loop L base_url media_template rep_id start_number is us = Inr us' \<Longrightarrow>
   \<exists>ms. us' = us @ ms \<and> length ms = length is"
proof (induction "is" arbitrary: us)
  case Nil
  then show ?case by simp
next
  case (Cons i rest)
  from Cons.prems obtain m where
    "vod_loop L base_url media_template rep_id start_number rest (us @ [m]) = Inr us'"
    by (auto split: sum.splits)
  from Cons.IH [OF this] obtain ms where "us' = (us @ [m]) @ ms" "length ms = length rest" by blast
  then have "us' = us @ (m # ms) \<and> length (m # ms) = length (i # rest)" by simp
  then show ?case by blast
qed

lemma media_urls_appends:
  "media_urls L base_url root_el current_template rep_id media_template us = Inr (Some us') \<Longrightarrow>
   \<exists>ms. us' = us @ ms"
  by (auto simp: media_urls_def Let_def split: sum.splits option.splits if_splits
      dest: timeline_loop_appends vod_loop_appends)

lemma init_urls_length:
  "init_urls L base_url current_template rep_id = Inr us \<Longrightarrow> length us \<le> 1"
  by (auto simp: init_urls_def split: option.splits if_splits sum.splits)

text \<open>
  Claim C2, amended. A representation that reaches the enumeration of its media segments
  is recorded exactly when the enumeration does not give up and its whole URL list, the
  initialization URL if one is declared followed by the media URLs, is not empty. So it is
  absent when the template has no timeline and the duration, the timescale or the total
  duration is not positive, with or without an initialization pattern, and when no
  initialization URL and no media URL were produced. With an initialization pattern and
  a timeline that yields no media URL it is recorded, with the initialization URL as its
  only entry.
\<close>

theorem representation_recorded:
  assumes "get_attrib rep ''id'' = Some rep_id" and "rep_id \<noteq> []"
    and "(case find_first rep ''SegmentTemplate'' of Some t \<Rightarrow> Some t | None \<Rightarrow> segment_template)
           = Some current_template"
    and "init_urls L base_url current_template rep_id = Inr us"
    and "get_attrib current_template ''media'' = Some media_template" and "media_template \<noteq> []"
  shows "(media_urls L base_url root_el current_template rep_id media_template us = Inr None \<longrightarrow>
            parse_representation L base_url root_el content_type segment_template rep = Inr None)
       \<and> (media_urls L base_url root_el current_template rep_id media_template us = Inr (Some []) \<longrightarrow>
            parse_representation L base_url root_el content_type segment_template rep = Inr None)
       \<and> (\<forall>us' bw. media_urls L base_url root_el current_template rep_id media_template us = Inr (Some us')
              \<and> us' \<noteq> [] \<and> int_attrib L rep ''bandwidth'' 0 = Inr bw \<longrightarrow>
            parse_representation L base_url root_el content_type segment_template rep =
              Inr (Some \<lparr>key = content_type @ ''_'' @ rep_id, tid = rep_id, ttype = content_type,
                         bandwidth = bw, urls = us'\<rparr>))
       \<and> (\<forall>us'. media_urls L base_url root_el current_template rep_id media_template us = Inr (Some us') \<longrightarrow>
            (\<exists>ms. us' = us @ ms))
       \<and> (\<forall>t. parse_representation L base_url root_el content_type segment_template rep = Inr (Some t) \<longrightarrow>
            urls t \<noteq> []
            \<and> media_urls L base_url root_el current_template rep_id media_template us = Inr (Some (urls t)))
       \<and> length us \<le> 1
       \<and> (\<forall>start_number timescale seg_duration_units.
            find_first current_template ''SegmentTimeline'' = None
            \<and> int_attrib L current_template ''startNumber'' 1 = Inr start_number
            \<and> int_attrib L current_template ''timescale'' 1 = Inr timescale
            \<and> int_attrib L current_template ''duration'' 0 = Inr seg_duration_units
            \<and> \<not> (seg_duration_units > 0 \<and> timescale > 0
                   \<and> fpos L (parse_duration L (get_attrib root_el ''mediaPresentationDuration''))) \<longrightarrow>
            parse_representation L base_url root_el content_type segment_template rep = Inr None)
       \<and> (\<forall>timeline start_number bw.
            find_first current_template ''SegmentTimeline'' = Some timeline
            \<and> findall timeline ''S'' = []
            \<and> int_attrib L current_template ''startNumber'' 1 = Inr start_number
            \<and> int_attrib L rep ''bandwidth'' 0 = Inr bw \<longrightarrow>
            parse_representation L base_url root_el content_type segment_template rep =
              (if us = [] then Inr None
               else Inr (Some \<lparr>key = content_type @ ''_'' @ rep_id, tid = rep_id, ttype = content_type,
                               bandwidth = bw, urls = us\<rparr>)))"
proof -
  have 1: "media_urls L base_url root_el current_template rep_id media_template us = Inr None \<longrightarrow>
            parse_representation L base_url root_el content_type segment_template rep = Inr None"
    using assms by (simp add: parse_representation_def)
  have 2: "media_urls L base_url root_el current_template rep_id media_template us = Inr (Some []) \<longrightarrow>
            parse_representation L base_url root_el content_type segment_template rep = Inr None"
    using assms by (simp add: parse_representation_def)
  have 3: "\<forall>us' bw. media_urls L base_url root_el current_template rep_id media_template us = Inr (Some us')
              \<and> us' \<noteq> [] \<and> int_attrib L rep ''bandwidth'' 0 = Inr bw \<longrightarrow>
            parse_representation L base_url root_el content_type segment_template rep =
              Inr (Some \<lparr>key = content_type @ ''_'' @ rep_id, tid = rep_id, ttype = content_type,
                         bandwidth = bw, urls = us'\<rparr>)"
    using assms by (simp add: parse_representation_def)
  have 4: "\<forall>us'. media_urls L base_url root_el current_template rep_id media_template us = Inr (Some us') \<longrightarrow>
            (\<exists>ms. us' = us @ ms)"
    using media_urls_appends by blast
  have 5: "\<forall>t. parse_representation L base_url root_el content_type segment_template rep = Inr (Some t) \<longrightarrow>
            urls t \<noteq> []
            \<and> media_urls L base_url root_el current_template rep_id media_template us = Inr (Some (urls t))"
    using assms by (auto simp: parse_representation_def split: sum.splits option.splits if_splits)
  have 6: "length us \<le> 1" using assms(4) by (rule init_urls_length)
  have 7: "parse_representation L base_url root_el content_type segment_template rep = Inr None"
    if "find_first current_template ''SegmentTimeline'' = None"
      "int_attrib L current_template ''startNumber'' 1 = Inr start_number"
      "int_attrib L current_template ''timescale'' 1 = Inr timescale"
      "int_attrib L current_template ''duration'' 0 = Inr seg_duration_units"
      "\<not> (seg_duration_units > 0 \<and> timescale > 0
           \<and> fpos L (parse_duration L (get_attrib root_el ''mediaPresentationDuration'')))"
    for start_number timescale seg_duration_units
  proof -
    from that have "media_urls L base_url root_el current_template rep_id media_template us = Inr None"
      by (auto simp: media_urls_def Let_def)
    with 1 show ?thesis by blast
  qed
  have 8: "parse_representation L base_url root_el content_type segment_template rep =
              (if us = [] then Inr None
               else Inr (Some \<lparr>key = content_type @ ''_'' @ rep_id, tid = rep_id, ttype = content_type,
                               bandwidth = bw, urls = us\<rparr>))"
    if "find_first current_template ''SegmentTimeline'' = Some timeline" "findall timeline ''S'' = []"
      "int_attrib L current_template ''startNumber'' 1 = Inr start_number"
      "int_attrib L rep ''bandwidth'' 0 = Inr bw"
    for timeline start_number bw
  proof -
    from that have m: "media_urls L base_url root_el current_template rep_id media_template us =
        Inr (Some us)"
      by (simp add: media_urls_def)
    show ?thesis
    proof (cases "us = []")
      case True
      with m 2 show ?thesis by simp
    next
      case False
      with m 3 that(4) show ?thesis by simp
    qed
  qed
  from 1 2 3 4 5 6 7 8 show ?thesis by blast
qed

lemma init_only_media_urls:
  "media_urls lib0 ''http://h/a/'' init_only_mpd init_only_template ''v0'' ''seg$Number$.m4s''
     [''http://h/a/init.mp4''] = Inr (Some [''http://h/a/init.mp4''])"
  by (simp add: init_only_template_def eval_strings eval_lib eval_template eval_parser)

theorem representation_recorded_witness:
  "parse_representation lib0 ''http://h/a/'' init_only_mpd ''video'' None
     (Element (mpd ''Representation'') [(''id'', ''v0'')] [init_only_template]) =
   Inr (Some \<lparr>key = ''video_v0'', tid = ''v0'', ttype = ''video'', bandwidth = 0,
              urls = [''http://h/a/init.mp4'']\<rparr>)"
proof -
  let ?rep = "Element (mpd ''Representation'') [(''id'', ''v0'')] [init_only_template]"
  have a: "get_attrib ?rep ''id'' = Some ''v0''" "''v0'' \<noteq> []"
    "(case find_first ?rep ''SegmentTemplate'' of Some t \<Rightarrow> Some t | None \<Rightarrow> None)
       = Some init_only_template"
    "init_urls lib0 ''http://h/a/'' init_only_template ''v0'' = Inr [''http://h/a/init.mp4'']"
    "get_attrib init_only_template ''media'' = Some ''seg$Number$.m4s''" "''seg$Number$.m4s'' \<noteq> []"
    by (simp_all add: init_only_template_def eval_strings eval_lib eval_template eval_parser)
  have b: "int_attrib lib0 ?rep ''bandwidth'' 0 = Inr 0"
    by (simp add: eval_parser)
  note third = representation_recorded [OF a, of init_only_mpd "''video''",
      THEN conjunct2, THEN conjunct2, THEN conjunct1, rule_format, of "[''http://h/a/init.mp4'']" 0]
  have "parse_representation lib0 ''http://h/a/'' init_only_mpd ''video'' None ?rep =
      Inr (Some \<lparr>key = ''video'' @ ''_'' @ ''v0'', tid = ''v0'', ttype = ''video'', bandwidth = 0,
                 urls = [''http://h/a/init.mp4'']\<rparr>)"
    by (rule third) (simp add: init_only_media_urls b)
  then show ?thesis by simp
qed

text \<open>The claim as it is written fails: the timeline of this representation yields no
  media URL, and the representation is in the tracks that the parser returns.\<close>

theorem representation_recorded_counterexample:
  "timeline_loop lib0 ''http://h/a/'' ''seg$Number$.m4s'' ''v0''
     (findall (Element (mpd ''SegmentTimeline'') [] []) ''S'') [''http://h/a/init.mp4''] 0 1
     = Inr [''http://h/a/init.mp4'']
   \<and> parse_mpd lib0 (Inr (Response ''http://h/a/b.mpd'' (Some init_only_mpd))) =
       Some ([(''video_v0'', \<lparr>key = ''video_v0'', tid = ''v0'', ttype = ''video'', bandwidth = 0,
                               urls = [''http://h/a/init.mp4'']\<rparr>)], ''dynamic'')"
  by (simp add: init_only_mpd_def eval_strings eval_lib eval_template eval_parser)

section \<open>The template expander: what is substituted and what is left\<close>

declare format_template.simps [simp del]

lemma strip_prefix_iff: "strip_prefix p s = Some r \<longleftrightarrow> s = p @ r"
  by (induction p s rule: strip_prefix.induct) auto

lemma strip_prefix_append: "strip_prefix p (p @ r) = Some r"
  by (simp add: strip_prefix_iff)

lemma not_alnum_dollar: "\<not> is_alnum CHR ''$''" and not_alnum_percent: "\<not> is_alnum CHR ''%''"
  by (simp_all add: is_alnum_def is_digit_def)

lemma spec_no_dollar: "is_spec spec \<Longrightarrow> CHR ''$'' \<notin> set spec"
  using not_alnum_dollar by (auto simp: is_spec_def list_all_iff)

lemma takeWhile_spec:
  "list_all is_alnum spec \<Longrightarrow> takeWhile is_alnum (spec @ CHR ''$'' # rest) = spec"
  using not_alnum_dollar by (induction spec) auto

lemma dropWhile_spec:
  "list_all is_alnum spec \<Longrightarrow> dropWhile is_alnum (spec @ CHR ''$'' # rest) = CHR ''$'' # rest"
  using not_alnum_dollar by (induction spec) auto

lemma match_name_Number: "match_name (''Number'' @ s) = Some (''Number'', s)"
  by (simp add: match_name_def)

lemma match_name_Time: "match_name (''Time'' @ s) = Some (''Time'', s)"
  by (simp add: match_name_def)

lemma match_name_SomeD:
  "match_name s = Some (nm, r) \<Longrightarrow> (nm = ''Number'' \<or> nm = ''Time'') \<and> s = nm @ r"
  by (auto simp: match_name_def strip_prefix_iff split: option.splits)

lemma match_plain:
  "nm = ''Number'' \<or> nm = ''Time'' \<Longrightarrow>
   match_placeholder (CHR ''$'' # nm @ CHR ''$'' # rest) = Some (nm, None, rest)"
  by (auto simp: match_placeholder_def match_name_def)

lemma match_formatted:
  assumes "nm = ''Number'' \<or> nm = ''Time''" and "is_spec spec"
  shows "match_placeholder (CHR ''$'' # nm @ CHR ''%'' # spec @ CHR ''$'' # rest) =
           Some (nm, Some (CHR ''%'' # spec), rest)"
proof -
  from assms(2) have a: "list_all is_alnum spec" and n: "spec \<noteq> []" by (auto simp: is_spec_def)
  from assms(1) have m: "match_name (nm @ CHR ''%'' # spec @ CHR ''$'' # rest) =
      Some (nm, CHR ''%'' # spec @ CHR ''$'' # rest)"
    using match_name_Number match_name_Time by auto
  show ?thesis
    by (simp add: match_placeholder_def m takeWhile_spec [OF a] dropWhile_spec [OF a] n Let_def)
qed

lemma list_all_takeWhile: "list_all P (takeWhile P xs)"
  by (induction xs) auto

lemma match_placeholder_dollar:
  "match_placeholder s = Some (nm, fmt, r) \<Longrightarrow> \<exists>s1. s = CHR ''$'' # s1"
  by (cases s) (auto simp: match_placeholder_def split: if_splits)

lemma match_placeholder_name:
  "match_placeholder (CHR ''$'' # s1) = Some (nm, fmt, r) \<Longrightarrow>
   \<exists>a c2 s3. match_name s1 = Some (a, c2 # s3)"
  by (cases "match_name s1") (auto simp: match_placeholder_def split: list.splits)

lemma match_placeholder_plain:
  assumes "match_placeholder (CHR ''$'' # s1) = Some (nm, fmt, r)"
    and "match_name s1 = Some (a, CHR ''$'' # s3)"
  shows "nm = a \<and> fmt = None \<and> r = s3"
  using assms by (auto simp: match_placeholder_def)

lemma match_placeholder_percent:
  assumes "match_placeholder (CHR ''$'' # s1) = Some (nm, fmt, r)"
    and "match_name s1 = Some (a, c2 # s3)" and "c2 \<noteq> CHR ''$''"
  shows "c2 = CHR ''%'' \<and> takeWhile is_alnum s3 \<noteq> [] \<and> dropWhile is_alnum s3 = CHR ''$'' # r
       \<and> fmt = Some (CHR ''%'' # takeWhile is_alnum s3) \<and> nm = a"
  using assms by (auto simp: match_placeholder_def Let_def split: if_splits list.splits)

lemma match_placeholder_SomeD:
  assumes "match_placeholder s = Some (nm, fmt, r)"
  shows "(nm = ''Number'' \<or> nm = ''Time'')
       \<and> ((fmt = None \<and> s = CHR ''$'' # nm @ CHR ''$'' # r)
          \<or> (\<exists>spec. fmt = Some (CHR ''%'' # spec) \<and> is_spec spec
                \<and> s = CHR ''$'' # nm @ CHR ''%'' # spec @ CHR ''$'' # r))"
proof -
  from match_placeholder_dollar [OF assms] obtain s1 where s: "s = CHR ''$'' # s1" by blast
  note m = assms [unfolded s]
  from match_placeholder_name [OF m] obtain a c2 s3 where mn: "match_name s1 = Some (a, c2 # s3)"
    by blast
  from match_name_SomeD [OF mn] have a: "a = ''Number'' \<or> a = ''Time''" and s1: "s1 = a @ c2 # s3"
    by blast+
  show ?thesis
  proof (cases "c2 = CHR ''$''")
    case True
    from match_placeholder_plain [OF m mn [unfolded True]]
    have n: "nm = a" and f: "fmt = None" and r: "r = s3" by blast+
    have "s = CHR ''$'' # nm @ CHR ''$'' # r" unfolding s s1 True n r ..
    with a n f show ?thesis by blast
  next
    case False
    define al where "al = takeWhile is_alnum s3"
    from match_placeholder_percent [OF m mn False]
    have pc: "c2 = CHR ''%''" and al: "al \<noteq> []" and d: "dropWhile is_alnum s3 = CHR ''$'' # r"
      and f: "fmt = Some (CHR ''%'' # al)" and n: "nm = a"
      unfolding al_def by blast+
    have "takeWhile is_alnum s3 @ dropWhile is_alnum s3 = s3" by (rule takeWhile_dropWhile_id)
    then have s3: "al @ CHR ''$'' # r = s3" unfolding d al_def .
    have "list_all is_alnum al" unfolding al_def by (rule list_all_takeWhile)
    with al have sp: "is_spec al" by (simp add: is_spec_def)
    have "s = CHR ''$'' # nm @ CHR ''%'' # al @ CHR ''$'' # r"
      unfolding s s1 pc n s3 ..
    with f sp have "\<exists>spec. fmt = Some (CHR ''%'' # spec) \<and> is_spec spec
                \<and> s = CHR ''$'' # nm @ CHR ''%'' # spec @ CHR ''$'' # r" by blast
    with a n show ?thesis by blast
  qed
qed

lemma first_dollar_unique:
  "CHR ''$'' \<notin> set a \<Longrightarrow> CHR ''$'' \<notin> set b \<Longrightarrow> a @ CHR ''$'' # x = b @ CHR ''$'' # y \<Longrightarrow> a = b \<and> x = y"
proof (induction a arbitrary: b)
  case Nil
  then show ?case by (cases b) auto
next
  case (Cons c a)
  then show ?case by (cases b) auto
qed

lemma recognised_formatted:
  "nm = ''Number'' \<or> nm = ''Time'' \<Longrightarrow> is_spec spec \<Longrightarrow> recognised (nm @ CHR ''%'' # spec)"
  by (auto simp: recognised_def)

lemma match_unrecognised:
  assumes "CHR ''$'' \<notin> set name" and "\<not> recognised name"
  shows "match_placeholder (CHR ''$'' # name @ CHR ''$'' # rest) = None"
proof (rule ccontr)
  assume "match_placeholder (CHR ''$'' # name @ CHR ''$'' # rest) \<noteq> None"
  then obtain nm fmt r where "match_placeholder (CHR ''$'' # name @ CHR ''$'' # rest) = Some (nm, fmt, r)"
    by (cases "match_placeholder (CHR ''$'' # name @ CHR ''$'' # rest)") auto
  from match_placeholder_SomeD [OF this]
  have nm: "nm = ''Number'' \<or> nm = ''Time''"
    and c: "name @ CHR ''$'' # rest = nm @ CHR ''$'' # r
       \<or> (\<exists>spec. is_spec spec \<and> name @ CHR ''$'' # rest = (nm @ CHR ''%'' # spec) @ CHR ''$'' # r)"
    by auto
  from nm have nd: "CHR ''$'' \<notin> set nm" by auto
  from c show False
  proof
    assume "name @ CHR ''$'' # rest = nm @ CHR ''$'' # r"
    from first_dollar_unique [OF assms(1) nd this] have "name = nm" by simp
    with nm assms(2) show False by (auto simp: recognised_def)
  next
    assume "\<exists>spec. is_spec spec \<and> name @ CHR ''$'' # rest = (nm @ CHR ''%'' # spec) @ CHR ''$'' # r"
    then obtain spec where sp: "is_spec spec"
      and e: "name @ CHR ''$'' # rest = (nm @ CHR ''%'' # spec) @ CHR ''$'' # r" by blast
    from nd spec_no_dollar [OF sp] have "CHR ''$'' \<notin> set (nm @ CHR ''%'' # spec)" by simp
    from first_dollar_unique [OF assms(1) this e] have "name = nm @ CHR ''%'' # spec" by simp
    with recognised_formatted [OF nm sp] assms(2) show False by simp
  qed
qed

lemma match_not_dollar: "c \<noteq> CHR ''$'' \<Longrightarrow> match_placeholder (c # s) = None"
  by (simp add: match_placeholder_def)

lemma format_template_match:
  assumes "match_placeholder s = Some (nm, fmt, rest)"
  shows "format_template L s number time =
     (case replace_func L number time nm fmt of
        Inl e \<Rightarrow> Inl e
      | Inr rep \<Rightarrow> prepend rep (format_template L rest number time))"
proof -
  from assms obtain c cs where s: "s = c # cs"
    by (cases s) (simp_all add: match_placeholder_def)
  have "format_template L (c # cs) number time =
     (case replace_func L number time nm fmt of
        Inl e \<Rightarrow> Inl e
      | Inr rep \<Rightarrow> prepend rep (format_template L rest number time))"
    unfolding format_template.simps(2) [of L c cs number time] assms [unfolded s] prepend_def
    by simp
  then show ?thesis unfolding s .
qed

lemma format_template_copy:
  assumes "match_placeholder (c # s) = None"
  shows "format_template L (c # s) number time = prepend [c] (format_template L s number time)"
  unfolding format_template.simps(2) [of L c s number time] assms prepend_def
  by (cases "format_template L s number time") simp_all

lemma prepend_prepend: "prepend a (prepend b r) = prepend (a @ b) r"
  by (cases r) (simp_all add: prepend_def)

lemma prepend_Nil: "prepend [] r = r"
  by (cases r) (simp_all add: prepend_def)

lemma format_template_literal:
  "CHR ''$'' \<notin> set lit \<Longrightarrow>
   format_template L (lit @ s) number time = prepend lit (format_template L s number time)"
proof (induction lit)
  case Nil
  show ?case by (simp add: prepend_Nil)
next
  case (Cons c lit)
  from Cons.prems have c: "c \<noteq> CHR ''$''" and nd: "CHR ''$'' \<notin> set lit" by auto
  have "format_template L (c # lit @ s) number time =
          prepend [c] (format_template L (lit @ s) number time)"
    by (rule format_template_copy [OF match_not_dollar [OF c]])
  also have "\<dots> = prepend [c] (prepend lit (format_template L s number time))"
    by (simp only: Cons.IH [OF nd])
  also have "\<dots> = prepend (c # lit) (format_template L s number time)"
    by (simp add: prepend_prepend)
  finally show ?case by simp
qed

lemma format_template_unrecognised:
  assumes "CHR ''$'' \<notin> set name" and "\<not> recognised name"
  shows "format_template L (CHR ''$'' # name @ CHR ''$'' # rest) number time =
           prepend (CHR ''$'' # name) (format_template L (CHR ''$'' # rest) number time)"
proof -
  have "format_template L (CHR ''$'' # name @ CHR ''$'' # rest) number time =
          prepend ''$'' (format_template L (name @ CHR ''$'' # rest) number time)"
    by (rule format_template_copy [OF match_unrecognised [OF assms]])
  also have "\<dots> = prepend ''$'' (prepend name (format_template L (CHR ''$'' # rest) number time))"
    by (simp only: format_template_literal [OF assms(1)])
  also have "\<dots> = prepend (CHR ''$'' # name) (format_template L (CHR ''$'' # rest) number time)"
    by (simp add: prepend_prepend)
  finally show ?thesis .
qed

lemma format_template_unchanged:
  "\<forall>k < length s. match_placeholder (drop k s) = None \<Longrightarrow>
   format_template L s number time = Inr s"
proof (induction s)
  case Nil
  show ?case by (simp add: format_template.simps)
next
  case (Cons c s)
  from Cons.prems have "match_placeholder (drop 0 (c # s)) = None" by blast
  then have m: "match_placeholder (c # s) = None" by simp
  have "\<forall>k < length s. match_placeholder (drop k s) = None"
  proof (intro allI impI)
    fix k assume "k < length s"
    then have "Suc k < length (c # s)" by simp
    with Cons.prems have "match_placeholder (drop (Suc k) (c # s)) = None" by blast
    then show "match_placeholder (drop k s) = None" by simp
  qed
  then have ih: "format_template L s number time = Inr s" by (rule Cons.IH)
  have "format_template L (c # s) number time = prepend [c] (format_template L s number time)"
    by (rule format_template_copy [OF m])
  also have "\<dots> = Inr (c # s)" unfolding ih by (simp add: prepend_def)
  finally show ?case .
qed

lemma lstrip_spec: "is_spec spec \<Longrightarrow> dropWhile (\<lambda>c. c = CHR ''%'') (CHR ''%'' # spec) = spec"
  using not_alnum_percent by (cases spec) (auto simp: is_spec_def)

lemma replace_func_value:
  "nm = ''Number'' \<or> nm = ''Time'' \<Longrightarrow>
   replace_func L number time nm fmt =
     (case (if nm = ''Number'' then number else time) of
        None \<Rightarrow> Inr []
      | Some v \<Rightarrow> (case fmt of None \<Rightarrow> py_str L v
                   | Some f \<Rightarrow> if f \<noteq> [] then py_format L v (dropWhile (\<lambda>c. c = CHR ''%'') f)
                               else py_str L v))"
  by (simp add: replace_func_def Let_def)

text \<open>
  Claim C8, amended. At a placeholder \<^verbatim>\<open>$Number$\<close> or \<^verbatim>\<open>$Time$\<close> the expander puts
  the string of the value, or the value formatted with the specification that follows a
  percent sign, and nothing when the value was not supplied. Text without a dollar sign
  is copied. At \<^verbatim>\<open>$name$\<close> with any other name the opening dollar sign and the name
  are copied and the expansion goes on from the closing dollar sign: the whole of
  \<^verbatim>\<open>$name$\<close> is left unchanged when the closing dollar sign does not open a
  recognised placeholder, and a string in which the pattern matches nowhere is returned
  as it is. Every match of the pattern is a recognised placeholder. The marker
  \<^verbatim>\<open>$RepresentationID$\<close> is not recognised; it is replaced by the representation id
  in the result of the expansion, before the URL is joined to the base.
\<close>

theorem format_template_placeholders:
  "(nm = ''Number'' \<or> nm = ''Time'' \<longrightarrow>
      format_template L (CHR ''$'' # nm @ CHR ''$'' # rest) number time =
        (case (if nm = ''Number'' then number else time) of
           None \<Rightarrow> format_template L rest number time
         | Some v \<Rightarrow>
             (case py_str L v of
                Inl e \<Rightarrow> Inl e
              | Inr out \<Rightarrow> prepend out (format_template L rest number time))))
   \<and> ((nm = ''Number'' \<or> nm = ''Time'') \<and> is_spec spec \<longrightarrow>
      format_template L (CHR ''$'' # nm @ CHR ''%'' # spec @ CHR ''$'' # rest) number time =
        (case (if nm = ''Number'' then number else time) of
           None \<Rightarrow> format_template L rest number time
         | Some v \<Rightarrow>
             (case py_format L v spec of
                Inl e \<Rightarrow> Inl e
              | Inr out \<Rightarrow> prepend out (format_template L rest number time))))
   \<and> (CHR ''$'' \<notin> set name \<and> \<not> recognised name \<longrightarrow>
      format_template L (CHR ''$'' # name @ CHR ''$'' # rest) number time =
        prepend (CHR ''$'' # name) (format_template L (CHR ''$'' # rest) number time))
   \<and> (CHR ''$'' \<notin> set name \<and> \<not> recognised name \<and> match_placeholder (CHR ''$'' # rest) = None \<longrightarrow>
      format_template L (CHR ''$'' # name @ CHR ''$'' # rest) number time =
        prepend (CHR ''$'' # name @ ''$'') (format_template L rest number time))
   \<and> (CHR ''$'' \<notin> set lit \<longrightarrow>
      format_template L (lit @ rest) number time = prepend lit (format_template L rest number time))
   \<and> ((\<forall>k < length s. match_placeholder (drop k s) = None) \<longrightarrow>
      format_template L s number time = Inr s)
   \<and> (\<forall>m fmt r. match_placeholder s = Some (m, fmt, r) \<longrightarrow>
        (\<exists>name. recognised name \<and> s = CHR ''$'' # name @ CHR ''$'' # r))
   \<and> template_url L base_url s rep_id number time =
        (case format_template L s number time of
           Inl e \<Rightarrow> Inl e
         | Inr out \<Rightarrow> urljoin L base_url (str_replace out ''$RepresentationID$'' rep_id))
   \<and> \<not> recognised ''RepresentationID''"
proof -
  have 1: "format_template L (CHR ''$'' # nm @ CHR ''$'' # rest) number time =
        (case (if nm = ''Number'' then number else time) of
           None \<Rightarrow> format_template L rest number time
         | Some v \<Rightarrow>
             (case py_str L v of
                Inl e \<Rightarrow> Inl e
              | Inr out \<Rightarrow> prepend out (format_template L rest number time)))"
    if nm: "nm = ''Number'' \<or> nm = ''Time''"
    unfolding format_template_match [OF match_plain [OF nm]] replace_func_value [OF nm]
    by (simp add: prepend_Nil split: option.splits sum.splits)
  have 2: "format_template L (CHR ''$'' # nm @ CHR ''%'' # spec @ CHR ''$'' # rest) number time =
        (case (if nm = ''Number'' then number else time) of
           None \<Rightarrow> format_template L rest number time
         | Some v \<Rightarrow>
             (case py_format L v spec of
                Inl e \<Rightarrow> Inl e
              | Inr out \<Rightarrow> prepend out (format_template L rest number time)))"
    if nm: "nm = ''Number'' \<or> nm = ''Time''" and sp: "is_spec spec"
    unfolding format_template_match [OF match_formatted [OF nm sp]] replace_func_value [OF nm]
    by (simp add: prepend_Nil lstrip_spec [OF sp] del: dropWhile.simps
        split: option.splits sum.splits)
  have 3: "format_template L (CHR ''$'' # name @ CHR ''$'' # rest) number time =
        prepend (CHR ''$'' # name) (format_template L (CHR ''$'' # rest) number time)"
    if "CHR ''$'' \<notin> set name" "\<not> recognised name"
    using that by (rule format_template_unrecognised)
  have 4: "format_template L (CHR ''$'' # name @ CHR ''$'' # rest) number time =
        prepend (CHR ''$'' # name @ ''$'') (format_template L rest number time)"
    if "CHR ''$'' \<notin> set name" "\<not> recognised name" "match_placeholder (CHR ''$'' # rest) = None"
    unfolding 3 [OF that(1,2)] format_template_copy [OF that(3)]
    by (simp add: prepend_prepend)
  have 5: "format_template L (lit @ rest) number time = prepend lit (format_template L rest number time)"
    if "CHR ''$'' \<notin> set lit"
    using that by (rule format_template_literal)
  have 6: "format_template L s number time = Inr s"
    if "\<forall>k < length s. match_placeholder (drop k s) = None"
    using that by (rule format_template_unchanged)
  have 7: "\<exists>name. recognised name \<and> s = CHR ''$'' # name @ CHR ''$'' # r"
    if m: "match_placeholder s = Some (m, fmt, r)" for m fmt r
  proof -
    from match_placeholder_SomeD [OF m]
    have nm: "m = ''Number'' \<or> m = ''Time''"
      and c: "s = CHR ''$'' # m @ CHR ''$'' # r
         \<or> (\<exists>spec. is_spec spec \<and> s = CHR ''$'' # m @ CHR ''%'' # spec @ CHR ''$'' # r)"
      by blast+
    from c show ?thesis
    proof
      assume "s = CHR ''$'' # m @ CHR ''$'' # r"
      moreover from nm have "recognised m" by (auto simp: recognised_def)
      ultimately show ?thesis by blast
    next
      assume "\<exists>spec. is_spec spec \<and> s = CHR ''$'' # m @ CHR ''%'' # spec @ CHR ''$'' # r"
      then obtain spec where sp: "is_spec spec"
        and e: "s = CHR ''$'' # m @ CHR ''%'' # spec @ CHR ''$'' # r" by blast
      from e have "s = CHR ''$'' # (m @ CHR ''%'' # spec) @ CHR ''$'' # r" by simp
      with recognised_formatted [OF nm sp] show ?thesis by blast
    qed
  qed
  have 8: "template_url L base_url s rep_id number time =
        (case format_template L s number time of
           Inl e \<Rightarrow> Inl e
         | Inr out \<Rightarrow> urljoin L base_url (str_replace out ''$RepresentationID$'' rep_id))"
    by (simp add: template_url_def)
  have 9: "\<not> recognised ''RepresentationID''"
    by (simp add: recognised_def)
  from 1 2 3 4 5 6 7 8 9 show ?thesis by blast
qed

theorem format_template_placeholders_witness:
  "format_template lib0 ''$Number%05d$_$Time$'' (Some 7) (Some 12) = Inr ''00007_12''
   \<and> format_template lib0 ''$Time$.m4s'' (Some 7) None = Inr ''.m4s''
   \<and> format_template lib0 ''$Bandwidth$.m4s'' (Some 7) (Some 12) = Inr ''$Bandwidth$.m4s''
   \<and> template_url lib0 ''http://h/'' ''$RepresentationID$/$Number$.m4s'' ''v0'' (Some 7) None
       = Inr ''http://h/v0/7.m4s''"
proof -
  note ev = eval_strings eval_lib eval_template format_template.simps prepend_def
  have sp: "is_spec ''05d''"
    by (simp add: is_spec_def is_alnum_def is_digit_def)
  have a: "format_template lib0 (CHR ''$'' # ''Number'' @ CHR ''%'' # ''05d'' @ CHR ''$'' # ''_$Time$'')
             (Some 7) (Some 12) =
           (case (if ''Number'' = ''Number'' then Some 7 else Some 12) of
              None \<Rightarrow> format_template lib0 ''_$Time$'' (Some 7) (Some 12)
            | Some v \<Rightarrow>
                (case py_format lib0 v ''05d'' of
                   Inl e \<Rightarrow> Inl e
                 | Inr out \<Rightarrow> prepend out (format_template lib0 ''_$Time$'' (Some 7) (Some 12))))"
    by (rule format_template_placeholders [THEN conjunct2, THEN conjunct1, rule_format]) (simp add: sp)
  have b: "format_template lib0 (CHR ''$'' # ''Time'' @ CHR ''$'' # ''.m4s'') (Some 7) None =
           (case (if ''Time'' = ''Number'' then Some 7 else None) of
              None \<Rightarrow> format_template lib0 ''.m4s'' (Some 7) None
            | Some v \<Rightarrow>
                (case py_str lib0 v of
                   Inl e \<Rightarrow> Inl e
                 | Inr out \<Rightarrow> prepend out (format_template lib0 ''.m4s'' (Some 7) None)))"
    by (rule format_template_placeholders [THEN conjunct1, rule_format]) simp
  have nr: "CHR ''$'' \<notin> set ''Bandwidth'' \<and> \<not> recognised ''Bandwidth''"
    by (simp add: recognised_def)
  have c: "format_template lib0 (CHR ''$'' # ''Bandwidth'' @ CHR ''$'' # ''.m4s'') (Some 7) (Some 12) =
           prepend (CHR ''$'' # ''Bandwidth'') (format_template lib0 (CHR ''$'' # ''.m4s'') (Some 7) (Some 12))"
    by (rule format_template_placeholders
          [THEN conjunct2, THEN conjunct2, THEN conjunct1, rule_format]) (rule nr)
  have d: "template_url lib0 ''http://h/'' ''$RepresentationID$/$Number$.m4s'' ''v0'' (Some 7) None
       = Inr ''http://h/v0/7.m4s''"
    by (simp add: ev)
  have a': "format_template lib0 ''$Number%05d$_$Time$'' (Some 7) (Some 12) = Inr ''00007_12''"
    using a by (simp add: ev)
  have b': "format_template lib0 ''$Time$.m4s'' (Some 7) None = Inr ''.m4s''"
    using b by (simp add: ev)
  have c': "format_template lib0 ''$Bandwidth$.m4s'' (Some 7) (Some 12) = Inr ''$Bandwidth$.m4s''"
    using c by (simp add: ev)
  from a' b' c' d show ?thesis by blast
qed

text \<open>The claim as it is written fails: in \<^verbatim>\<open>$Foo$Number$\<close> the closing dollar sign of
  \<^verbatim>\<open>$Foo$\<close> opens \<^verbatim>\<open>$Number$\<close>, so \<^verbatim>\<open>$Foo$\<close> is not left unchanged; and in
  \<^verbatim>\<open>$RepresentationID$Number$.m4s\<close> the marker is broken by the expansion, and the
  representation id is never put in.\<close>

theorem format_template_placeholders_counterexample:
  "format_template lib0 ''$Foo$Number$'' (Some 7) None = Inr ''$Foo7''
   \<and> match_placeholder ''$Number$'' = Some (''Number'', None, [])
   \<and> template_url lib0 ''http://h/'' ''$RepresentationID$Number$.m4s'' ''v0'' (Some 7) None
       = Inr ''http://h/$RepresentationID7.m4s''"
  by (simp add: eval_strings eval_lib eval_template format_template.simps)

section \<open>The duration parser on well-formed durations\<close>

lemma takeWhile_all:
  "list_all P xs \<Longrightarrow> \<not> P c \<Longrightarrow> takeWhile P (xs @ c # rest) = xs"
  by (induction xs) auto

lemma dropWhile_all:
  "list_all P xs \<Longrightarrow> \<not> P c \<Longrightarrow> dropWhile P (xs @ c # rest) = c # rest"
  by (induction xs) auto

lemma unit_not_digit: "is_unit u \<Longrightarrow> \<not> is_digit u"
  by (auto simp: is_unit_def is_digit_def)

lemma dot_not_digit: "\<not> is_digit CHR ''.''" and dot_not_unit: "\<not> is_unit CHR ''.''"
  by (simp_all add: is_digit_def is_unit_def)

lemma match_duration_whole:
  assumes "ip \<noteq> []" "list_all is_digit ip" "is_unit u"
  shows "match_duration (ip @ u # rest) = Some (ip, u, rest)"
  using assms
  by (simp add: match_duration_def Let_def takeWhile_all dropWhile_all unit_not_digit)

lemma match_duration_fraction:
  assumes "ip \<noteq> []" "list_all is_digit ip" "f \<noteq> []" "list_all is_digit f" "is_unit u"
  shows "match_duration (ip @ CHR ''.'' # f @ u # rest) = Some (ip @ CHR ''.'' # f, u, rest)"
proof -
  have 1: "takeWhile is_digit (ip @ CHR ''.'' # f @ u # rest) = ip"
    and 2: "dropWhile is_digit (ip @ CHR ''.'' # f @ u # rest) = CHR ''.'' # f @ u # rest"
    using assms(2) dot_not_digit by (simp_all add: takeWhile_all dropWhile_all)
  have 3: "takeWhile is_digit (f @ u # rest) = f"
    and 4: "dropWhile is_digit (f @ u # rest) = u # rest"
    using assms(4,5) by (simp_all add: takeWhile_all dropWhile_all unit_not_digit)
  show ?thesis
    unfolding match_duration_def Let_def 1 2
    using assms(1,3,5) dot_not_unit by (simp add: 3 4)
qed

lemma match_duration_part:
  assumes "part_ok p"
  shows "match_duration (part_text p @ rest) = Some (part_number p, snd (snd p), rest)"
proof -
  obtain ip fp u where p: "p = (ip, fp, u)" by (cases p)
  show ?thesis
  proof (cases fp)
    case None
    with assms p show ?thesis
      using match_duration_whole [of ip u rest]
      by (simp add: part_ok_def part_text_def part_number_def)
  next
    case (Some f)
    with assms p show ?thesis
      using match_duration_fraction [of ip f u rest]
      by (simp add: part_ok_def part_text_def part_number_def)
  qed
qed

lemma findall_duration_match:
  assumes "match_duration s = Some (v, u, rest)"
  shows "findall_duration s = (v, u) # findall_duration rest"
proof -
  from assms obtain c cs where s: "s = c # cs"
    by (cases s) (simp_all add: match_duration_def)
  show ?thesis unfolding s findall_duration.simps(2) [of c cs] assms [unfolded s] by simp
qed

lemma findall_duration_parts:
  "list_all part_ok ps \<Longrightarrow>
   findall_duration (concat (map part_text ps) @ rest) =
     map (\<lambda>p. (part_number p, snd (snd p))) ps @ findall_duration rest"
proof (induction ps)
  case Nil
  then show ?case by simp
next
  case (Cons p ps)
  from Cons.prems have ok: "part_ok p" and oks: "list_all part_ok ps" by simp_all
  have "findall_duration (part_text p @ (concat (map part_text ps) @ rest)) =
          (part_number p, snd (snd p)) # findall_duration (concat (map part_text ps) @ rest)"
    by (rule findall_duration_match [OF match_duration_part [OF ok]])
  with Cons.IH [OF oks] show ?case by simp
qed

lemma findall_duration_no_digit:
  "\<forall>c \<in> set s. \<not> is_digit c \<Longrightarrow> findall_duration s = []"
proof (induction s)
  case Nil
  then show ?case by simp
next
  case (Cons c s)
  then have "match_duration (c # s) = None" by (simp add: match_duration_def)
  with Cons show ?case by simp
qed

lemma add_part_seconds:
  "is_unit (snd (snd p)) \<Longrightarrow>
   add_part L d (part_number p, snd (snd p)) = fadd L d (part_seconds L p)"
  by (auto simp: add_part_def part_seconds_def is_unit_def Let_def)

lemma foldl_add_part:
  "list_all part_ok ps \<Longrightarrow>
   foldl (add_part L) d (map (\<lambda>p. (part_number p, snd (snd p))) ps) =
   foldl (\<lambda>acc p. fadd L acc (part_seconds L p)) d ps"
proof (induction ps arbitrary: d)
  case Nil
  then show ?case by simp
next
  case (Cons p ps)
  from Cons.prems have "is_unit (snd (snd p))" by (auto simp: part_ok_def)
  then have a: "add_part L d (part_number p, snd (snd p)) = fadd L d (part_seconds L p)"
    by (rule add_part_seconds)
  from Cons.prems have "list_all part_ok ps" by simp
  from Cons.IH [OF this] show ?case by (simp add: a)
qed

text \<open>
  Claim C9. The parser returns \<^verbatim>\<open>0.0\<close> for a missing attribute, for the empty string
  and for every string that does not begin with \<^verbatim>\<open>PT\<close>. For \<^verbatim>\<open>PT\<close> followed by parts
  of a number and a unit and by text in which the pattern matches nowhere (text without
  a digit is such a text), it returns \<^verbatim>\<open>0.0\<close> plus the seconds of each part in turn,
  added as Python adds floats; in general it adds up the matches that
  \<^verbatim>\<open>findall\<close> gives on the text after \<^verbatim>\<open>PT\<close>.
\<close>

theorem parse_duration_sum:
  "parse_duration L None = fzero L
   \<and> (\<not> startswith s ''PT'' \<longrightarrow> parse_duration L (Some s) = fzero L)
   \<and> (list_all part_ok ps \<and> findall_duration junk = [] \<longrightarrow>
        parse_duration L (Some (''PT'' @ concat (map part_text ps) @ junk)) =
          foldl (\<lambda>acc p. fadd L acc (part_seconds L p)) (fzero L) ps)
   \<and> ((\<forall>c \<in> set junk. \<not> is_digit c) \<longrightarrow> findall_duration junk = [])
   \<and> parse_duration L (Some (''PT'' @ body)) = foldl (add_part L) (fzero L) (findall_duration body)"
proof -
  have 1: "parse_duration L None = fzero L"
    by (simp add: parse_duration_def)
  have 2: "\<not> startswith s ''PT'' \<longrightarrow> parse_duration L (Some s) = fzero L"
    by (simp add: parse_duration_def)
  have 5: "parse_duration L (Some (''PT'' @ body)) = foldl (add_part L) (fzero L) (findall_duration body)"
    for body
    by (simp add: parse_duration_def startswith_def)
  have 3: "parse_duration L (Some (''PT'' @ concat (map part_text ps) @ junk)) =
          foldl (\<lambda>acc p. fadd L acc (part_seconds L p)) (fzero L) ps"
    if "list_all part_ok ps" "findall_duration junk = []"
    unfolding 5 findall_duration_parts [OF that(1)] that(2)
    using foldl_add_part [OF that(1)] by simp
  have 4: "(\<forall>c \<in> set junk. \<not> is_digit c) \<longrightarrow> findall_duration junk = []"
    using findall_duration_no_digit by blast
  from 1 2 3 4 5 show ?thesis by blast
qed

theorem parse_duration_sum_witness:
  "parse_duration lib0 (Some ''PT1H30M5.5S seconds'') = 10811 / 2
   \<and> parse_duration lib0 (Some ''P1DT2H'') = 0"
proof -
  let ?ps = "[(''1'', None, CHR ''H''), (''30'', None, CHR ''M''), (''5'', Some ''5'', CHR ''S'')]"
  have ok: "list_all part_ok ?ps"
    by (simp add: part_ok_def is_digit_def is_unit_def)
  have nd: "\<forall>c \<in> set '' seconds''. \<not> is_digit c"
    by (simp add: is_digit_def)
  have j: "findall_duration '' seconds'' = []"
    using nd
    by (rule parse_duration_sum [THEN conjunct2, THEN conjunct2, THEN conjunct2, THEN conjunct1,
          THEN mp])
  have "parse_duration lib0 (Some (''PT'' @ concat (map part_text ?ps) @ '' seconds'')) =
          foldl (\<lambda>acc p. fadd lib0 acc (part_seconds lib0 p)) (fzero lib0) ?ps"
    by (rule parse_duration_sum [THEN conjunct2, THEN conjunct2, THEN conjunct1, rule_format])
       (intro conjI ok j)
  then have a: "parse_duration lib0 (Some ''PT1H30M5.5S seconds'') = 10811 / 2"
    by (simp add: part_text_def part_number_def part_seconds_def eval_lib eval_strings)
  have ns: "\<not> startswith ''P1DT2H'' ''PT''"
    by (simp add: startswith_def)
  have b: "parse_duration lib0 (Some ''P1DT2H'') = fzero lib0"
    by (rule parse_duration_sum [THEN conjunct2, THEN conjunct1, rule_format]) (rule ns)
  from a b show ?thesis by (simp add: eval_lib)
qed

section \<open>Invariants of the producer task\<close>

declare vod_while.simps [simp del] live_while.simps [simp del]

lemma extendsI:
  "requested st' = requested st @ new \<Longrightarrow> set new \<inter> sent_segments st = {} \<Longrightarrow>
   yielded st' = yielded st @ ys \<Longrightarrow> set ys \<inter> sent_segments st = {} \<Longrightarrow> distinct ys \<Longrightarrow>
   sent_segments st' = sent_segments st \<union> set ys \<Longrightarrow> queue st' = queue st @ map Some cs \<Longrightarrow>
   extends st st'"
  unfolding extends_def by blast

lemma extends_refl: "extends st st"
  by (rule extendsI [of _ _ "[]" "[]" "[]"]) simp_all

lemma extends_trans:
  assumes "extends a b" and "extends b c"
  shows "extends a c"
proof -
  from assms(1) obtain n1 m1 c1 where
    1: "requested b = requested a @ n1" "set n1 \<inter> sent_segments a = {}"
       "yielded b = yielded a @ m1" "set m1 \<inter> sent_segments a = {}" "distinct m1"
       "sent_segments b = sent_segments a \<union> set m1" "queue b = queue a @ map Some c1"
    unfolding extends_def by blast
  from assms(2) obtain n2 m2 c2 where
    2: "requested c = requested b @ n2" "set n2 \<inter> sent_segments b = {}"
       "yielded c = yielded b @ m2" "set m2 \<inter> sent_segments b = {}" "distinct m2"
       "sent_segments c = sent_segments b \<union> set m2" "queue c = queue b @ map Some c2"
    unfolding extends_def by blast
  show ?thesis
  proof (rule extendsI [of _ _ "n1 @ n2" "m1 @ m2" "c1 @ c2"])
    show "requested c = requested a @ n1 @ n2" using 1(1) 2(1) by simp
    show "set (n1 @ n2) \<inter> sent_segments a = {}" using 1(2) 2(2) 1(6) by auto
    show "yielded c = yielded a @ m1 @ m2" using 1(3) 2(3) by simp
    show "set (m1 @ m2) \<inter> sent_segments a = {}" using 1(4) 2(4) 1(6) by auto
    show "distinct (m1 @ m2)" using 1(5) 2(5) 2(4) 1(6) by auto
    show "sent_segments c = sent_segments a \<union> set (m1 @ m2)" using 1(6) 2(6) by auto
    show "queue c = queue a @ map Some (c1 @ c2)" using 1(7) 2(7) by simp
  qed
qed

lemma extends_request:
  "u \<notin> sent_segments st \<Longrightarrow> extends st (st\<lparr>requested := requested st @ [u]\<rparr>)"
  by (rule extendsI [of _ _ "[u]" "[]" "[]"]) simp_all

lemma extends_put:
  "extends st (st\<lparr>queue := queue st @ [Some c]\<rparr>)"
  by (rule extendsI [of _ _ "[]" "[]" "[c]"]) simp_all

lemma extends_yield:
  "u \<notin> sent_segments st \<Longrightarrow>
   extends st (st\<lparr>queue := queue st @ [Some c], sent_segments := insert u (sent_segments st),
                 yielded := yielded st @ [u]\<rparr>)"
  by (rule extendsI [of _ _ "[]" "[u]" "[c]"]) simp_all

lemma extends_distinct:
  assumes "extends st st'" and "distinct (yielded st)" and "set (yielded st) = sent_segments st"
  shows "distinct (yielded st') \<and> set (yielded st') = sent_segments st'"
proof -
  from assms(1) obtain ys where "yielded st' = yielded st @ ys"
    "set ys \<inter> sent_segments st = {}" "distinct ys"
    "sent_segments st' = sent_segments st \<union> set ys"
    unfolding extends_def by blast
  with assms(2,3) show ?thesis by auto
qed

lemma live_for_extends:
  "live_for us st ev = (sig, st', ev') \<Longrightarrow> extends st st' \<and> (sig = Starved \<longrightarrow> exhausted ev')"
proof (induction us arbitrary: st ev)
  case Nil
  then show ?case by (simp add: extends_refl)
next
  case (Cons u us)
  show ?case
  proof (cases "stops ev")
    case Nil
    with Cons.prems show ?thesis by (simp add: extends_refl exhausted_def)
  next
    case b: (Cons b bs)
    show ?thesis
    proof (cases b)
      case True
      with Cons.prems b show ?thesis by (simp add: extends_refl)
    next
      case nb: False
      show ?thesis
      proof (cases "u \<in> sent_segments st")
        case True
        with Cons.prems b nb have "live_for us st (ev\<lparr>stops := bs\<rparr>) = (sig, st', ev')" by simp
        then show ?thesis by (rule Cons.IH)
      next
        case nin: False
        show ?thesis
        proof (cases "gets ev")
          case Nil
          with Cons.prems b nb nin show ?thesis by (auto simp: extends_refl exhausted_def)
        next
          case g: (Cons g gs)
          let ?st1 = "st\<lparr>requested := requested st @ [u]\<rparr>"
          let ?ev1 = "ev\<lparr>stops := bs, gets := gs\<rparr>"
          have e1: "extends st ?st1" using nin by (rule extends_request)
          show ?thesis
          proof (cases g)
            case (Content c)
            let ?st2 = "?st1\<lparr>queue := queue ?st1 @ [Some c],
                               sent_segments := insert u (sent_segments ?st1),
                               yielded := yielded ?st1 @ [u]\<rparr>"
            from Cons.prems b nb nin g Content
            have "live_for us ?st2 ?ev1 = (sig, st', ev')" by (simp add: Let_def)
            from Cons.IH [OF this] have i: "extends ?st2 st'" and s: "sig = Starved \<longrightarrow> exhausted ev'"
              by blast+
            have "extends ?st1 ?st2" using nin extends_yield [of u ?st1 c] by simp
            from extends_trans [OF extends_trans [OF e1 this] i] s show ?thesis by blast
          next
            case RequestFailed
            with Cons.prems b nb nin g
            have "live_for us ?st1 ?ev1 = (sig, st', ev')" by (simp add: Let_def)
            from Cons.IH [OF this] have i: "extends ?st1 st'" and s: "sig = Starved \<longrightarrow> exhausted ev'"
              by blast+
            from extends_trans [OF e1 i] s show ?thesis by blast
          next
            case Crashed
            with Cons.prems b nb nin g have "st' = ?st1" "sig = Raised" by (simp_all add: Let_def)
            with e1 show ?thesis by simp
          qed
        qed
      qed
    qed
  qed
qed

lemma vod_for_extends:
  "sent_segments st = {} \<Longrightarrow> vod_for us st ev = (sig, st', ev') \<Longrightarrow>
   extends st st' \<and> sent_segments st' = {} \<and> (sig = Starved \<longrightarrow> exhausted ev')"
proof (induction us arbitrary: st ev)
  case Nil
  then show ?case by (simp add: extends_refl)
next
  case (Cons u us)
  show ?case
  proof (cases "stops ev")
    case Nil
    with Cons.prems show ?thesis by (simp add: extends_refl exhausted_def)
  next
    case b: (Cons b bs)
    show ?thesis
    proof (cases b)
      case True
      with Cons.prems b show ?thesis by (simp add: extends_refl)
    next
      case nb: False
      show ?thesis
      proof (cases "gets ev")
        case Nil
        with Cons.prems b nb show ?thesis by (auto simp: extends_refl exhausted_def)
      next
        case g: (Cons g gs)
        let ?st1 = "st\<lparr>requested := requested st @ [u]\<rparr>"
        let ?ev1 = "ev\<lparr>stops := bs, gets := gs\<rparr>"
        have e1: "extends st ?st1" using Cons.prems(1) extends_request [of u st] by simp
        have s1: "sent_segments ?st1 = {}" using Cons.prems(1) by simp
        show ?thesis
        proof (cases g)
          case (Content c)
          let ?st2 = "?st1\<lparr>queue := queue ?st1 @ [Some c]\<rparr>"
          have s2: "sent_segments ?st2 = {}" using Cons.prems(1) by simp
          from Cons.prems(2) b nb g Content
          have "vod_for us ?st2 ?ev1 = (sig, st', ev')" by (simp add: Let_def)
          from Cons.IH [OF s2 this] have i: "extends ?st2 st'" and z: "sent_segments st' = {}"
            and s: "sig = Starved \<longrightarrow> exhausted ev'"
            by blast+
          have "extends ?st1 ?st2" by (rule extends_put)
          from extends_trans [OF extends_trans [OF e1 this] i] z s show ?thesis by blast
        next
          case RequestFailed
          with Cons.prems(2) b nb g
          have "vod_for us ?st1 ?ev1 = (sig, st', ev')" by (simp add: Let_def)
          from Cons.IH [OF s1 this] have i: "extends ?st1 st'" and z: "sent_segments st' = {}"
            and s: "sig = Starved \<longrightarrow> exhausted ev'"
            by blast+
          from extends_trans [OF e1 i] z s show ?thesis by blast
        next
          case Crashed
          with Cons.prems(2) b nb g have "st' = ?st1" "sig = Raised" by (simp_all add: Let_def)
          with e1 s1 show ?thesis by simp
        qed
      qed
    qed
  qed
qed

lemma live_while_extends:
  "live_while k st ev = (sig, st', ev') \<Longrightarrow> extends st st' \<and> (sig = Starved \<longrightarrow> exhausted ev')"
proof (induction "length (stops ev)" arbitrary: st ev rule: less_induct)
  case less
  note run = less.prems [unfolded live_while.simps [of k st ev]]
  show ?case
  proof (cases "stops ev")
    case Nil
    with run show ?thesis by (simp add: extends_refl exhausted_def)
  next
    case b: (Cons b bs)
    show ?thesis
    proof (cases b)
      case True
      with run b show ?thesis by (simp add: extends_refl)
    next
      case nb: False
      show ?thesis
      proof (cases "parses ev")
        case Nil
        with run b nb show ?thesis by (auto simp: extends_refl exhausted_def)
      next
        case p: (Cons p ps)
        let ?ev1 = "ev\<lparr>stops := bs, parses := ps\<rparr>"
        have len: "length (stops ?ev1) < length (stops ev)" using b by simp
        consider (retry) "p = None \<or> (\<exists>mt. p = Some ([], mt))"
          | (gone) lt mt where "p = Some (lt, mt)" "lt \<noteq> []"
              "map_of lt k = None \<or> (\<exists>t. map_of lt k = Some t \<and> urls t = [])"
          | (pass) lt mt t where "p = Some (lt, mt)" "lt \<noteq> []" "map_of lt k = Some t" "urls t \<noteq> []"
        proof (cases p)
          case None
          then show ?thesis using retry by blast
        next
          case (Some x)
          obtain lt mt where x: "x = (lt, mt)" by (cases x)
          show ?thesis
          proof (cases "lt = []")
            case True
            with Some x show ?thesis using retry by blast
          next
            case False
            show ?thesis
            proof (cases "map_of lt k")
              case None
              with Some x False show ?thesis using gone by blast
            next
              case t: (Some t)
              with Some x False show ?thesis using gone [of lt mt] pass [of lt mt t]
                by (cases "urls t = []") blast+
            qed
          qed
        qed
        then show ?thesis
        proof cases
          case retry
          with run b nb p have "live_while k st ?ev1 = (sig, st', ev')"
            by (auto simp: Let_def)
          from less.hyps [OF len this] show ?thesis .
        next
          case gone
          with run b nb p have "st' = st" "sig = Break"
            by (auto simp: Let_def)
          then show ?thesis by (simp add: extends_refl)
        next
          case pass
          obtain sig1 st1 ev2 where f: "live_for (urls t) st ?ev1 = (sig1, st1, ev2)"
            by (cases "live_for (urls t) st ?ev1")
          from live_for_extends [OF f] have e1: "extends st st1"
            and s1: "sig1 = Starved \<longrightarrow> exhausted ev2" by blast+
          from live_for_stops [OF f] len have len2: "length (stops ev2) < length (stops ev)"
            by simp
          show ?thesis
          proof (cases "sig1 = Raised \<or> sig1 = Starved")
            case True
            with run b nb p pass f have "sig = sig1" "st' = st1" "ev' = ev2"
              by (auto simp: Let_def)
            with e1 s1 show ?thesis by simp
          next
            case False
            with run b nb p pass f have "live_while k st1 ev2 = (sig, st', ev')"
              by (auto simp: Let_def)
            from less.hyps [OF len2 this] extends_trans [OF e1] show ?thesis by blast
          qed
        qed
      qed
    qed
  qed
qed

lemma vod_while_extends:
  "sent_segments st = {} \<Longrightarrow> vod_while us st ev = (sig, st', ev') \<Longrightarrow>
   extends st st' \<and> (sig = Starved \<longrightarrow> exhausted ev')"
proof (induction "length (stops ev)" arbitrary: st ev rule: less_induct)
  case less
  note run = less.prems(2) [unfolded vod_while.simps [of us st ev]]
  show ?case
  proof (cases "stops ev")
    case Nil
    with run show ?thesis by (simp add: extends_refl exhausted_def)
  next
    case b: (Cons b bs)
    show ?thesis
    proof (cases b)
      case True
      with run b show ?thesis by (simp add: extends_refl)
    next
      case nb: False
      let ?ev1 = "ev\<lparr>stops := bs\<rparr>"
      obtain sig1 st1 ev2 where f: "vod_for us st ?ev1 = (sig1, st1, ev2)"
        by (cases "vod_for us st ?ev1")
      from vod_for_extends [OF less.prems(1) f] have e1: "extends st st1"
        and z1: "sent_segments st1 = {}" and s1: "sig1 = Starved \<longrightarrow> exhausted ev2" by blast+
      from vod_for_stops [OF f] b have len2: "length (stops ev2) < length (stops ev)"
        by simp
      show ?thesis
      proof (cases "sig1 = Raised \<or> sig1 = Starved")
        case True
        with run b nb f have "sig = sig1" "st' = st1" "ev' = ev2" by auto
        with e1 s1 show ?thesis by simp
      next
        case go: False
        show ?thesis
        proof (cases "stops ev2")
          case Nil
          with run b nb f go have "sig = Starved" "st' = st1" "ev' = ev2" by auto
          with e1 Nil show ?thesis by (simp add: exhausted_def)
        next
          case b2: (Cons b' bs')
          show ?thesis
          proof (cases b')
            case True
            with run b nb f go b2 have "sig = Break" "st' = st1" by auto
            with e1 show ?thesis by simp
          next
            case False
            let ?ev3 = "ev2\<lparr>stops := bs'\<rparr>"
            from run b nb f go b2 False have w: "vod_while us st1 ?ev3 = (sig, st', ev')" by auto
            have "length (stops ?ev3) < length (stops ev)" using len2 b2 by simp
            from less.hyps [OF this z1 w] extends_trans [OF e1] show ?thesis by blast
          qed
        qed
      qed
    qed
  qed
qed

lemma consume_marker: "consume (map Some cs @ [None]) = Some cs"
  by (induction cs) auto

lemma consume_no_marker: "consume (map Some cs) = None"
  by (induction cs) auto

lemma fetcher_loop_extends:
  assumes "(if mpd_type = ''static'' then vod_while (urls track) fetcher_init ev
            else live_while (key track) fetcher_init ev) = (sig, st, ev')"
  shows "extends fetcher_init st \<and> (sig = Starved \<longrightarrow> exhausted ev')"
proof (cases "mpd_type = ''static''")
  case True
  with assms have "vod_while (urls track) fetcher_init ev = (sig, st, ev')" by simp
  moreover have "sent_segments fetcher_init = {}" by (simp add: fetcher_init_def)
  ultimately show ?thesis using vod_while_extends by blast
next
  case False
  with assms have "live_while (key track) fetcher_init ev = (sig, st, ev')" by simp
  then show ?thesis by (rule live_while_extends)
qed

lemma extends_init_queue: "extends fetcher_init st \<Longrightarrow> \<exists>cs. queue st = map Some cs"
  by (auto simp: extends_def fetcher_init_def)

lemma extends_init_distinct:
  "extends fetcher_init st \<Longrightarrow> distinct (yielded st) \<and> set (yielded st) = sent_segments st"
  using extends_distinct [of fetcher_init st] by (simp add: fetcher_init_def)

text \<open>
  Claim C6. In a live session the URLs whose content was put into the queue are
  pairwise different and are the elements of the set of sent URLs, which is empty at the
  start. Over one pass of the loop over the URLs of a manifest, and over any number of
  passes, the set only grows, and no URL that is in the set is requested or put into the
  queue again.
\<close>

theorem live_never_repeats:
  "(mpd_type \<noteq> ''static'' \<longrightarrow>
      distinct (yielded (snd (segment_fetcher track mpd_type ev)))
      \<and> set (yielded (snd (segment_fetcher track mpd_type ev))) =
          sent_segments (snd (segment_fetcher track mpd_type ev)))
   \<and> sent_segments fetcher_init = {}
   \<and> (\<forall>sig st' ev'. live_for us st ev = (sig, st', ev') \<longrightarrow> extends st st')
   \<and> (\<forall>sig st' ev'. live_while k st ev = (sig, st', ev') \<longrightarrow> extends st st')
   \<and> (extends st st' \<longrightarrow>
        sent_segments st \<subseteq> sent_segments st'
        \<and> (\<exists>new ys. requested st' = requested st @ new \<and> set new \<inter> sent_segments st = {}
               \<and> yielded st' = yielded st @ ys \<and> set ys \<inter> sent_segments st = {} \<and> distinct ys)
        \<and> (distinct (yielded st) \<and> set (yielded st) = sent_segments st \<longrightarrow>
             distinct (yielded st') \<and> set (yielded st') = sent_segments st'))"
proof -
  have 1: "distinct (yielded (snd (segment_fetcher track mpd_type ev)))
      \<and> set (yielded (snd (segment_fetcher track mpd_type ev))) =
          sent_segments (snd (segment_fetcher track mpd_type ev))"
    if live: "mpd_type \<noteq> ''static''"
  proof -
    obtain sig st ev' where w: "live_while (key track) fetcher_init ev = (sig, st, ev')"
      by (cases "live_while (key track) fetcher_init ev")
    from live_while_extends [OF w] have "extends fetcher_init st" by blast
    from extends_init_distinct [OF this]
    have d: "distinct (yielded st) \<and> set (yielded st) = sent_segments st" .
    from live w have "snd (segment_fetcher track mpd_type ev) = st
        \<or> snd (segment_fetcher track mpd_type ev) = st\<lparr>queue := queue st @ [None]\<rparr>"
      by (simp add: segment_fetcher_def)
    with d show ?thesis by auto
  qed
  have 2: "sent_segments fetcher_init = {}" by (simp add: fetcher_init_def)
  have 3: "\<forall>sig st' ev'. live_for us st ev = (sig, st', ev') \<longrightarrow> extends st st'"
    using live_for_extends by blast
  have 4: "\<forall>sig st' ev'. live_while k st ev = (sig, st', ev') \<longrightarrow> extends st st'"
    using live_while_extends by blast
  have 5: "sent_segments st \<subseteq> sent_segments st'
        \<and> (\<exists>new ys. requested st' = requested st @ new \<and> set new \<inter> sent_segments st = {}
               \<and> yielded st' = yielded st @ ys \<and> set ys \<inter> sent_segments st = {} \<and> distinct ys)
        \<and> (distinct (yielded st) \<and> set (yielded st) = sent_segments st \<longrightarrow>
             distinct (yielded st') \<and> set (yielded st') = sent_segments st')"
    if e: "extends st st'"
  proof -
    from e have a: "sent_segments st \<subseteq> sent_segments st'"
      and b: "\<exists>new ys. requested st' = requested st @ new \<and> set new \<inter> sent_segments st = {}
               \<and> yielded st' = yielded st @ ys \<and> set ys \<inter> sent_segments st = {} \<and> distinct ys"
      unfolding extends_def by blast+
    from extends_distinct [OF e] a b show ?thesis by blast
  qed
  from 1 2 3 4 5 show ?thesis by blast
qed

text \<open>In the session of \<open>live_script\<close> the URL whose request failed is requested
  again in the second pass; a URL that was put into the queue is not.\<close>

lemma live_session:
  "segment_fetcher (live_track [''i'']) ''dynamic'' live_script =
     (True, \<lparr>queue = [Some ''A'', Some ''B'', Some ''C'', None],
             sent_segments = {''i'', ''s1'', ''s2''},
             requested = [''i'', ''s1'', ''s1'', ''s2''],
             yielded = [''i'', ''s1'', ''s2'']\<rparr>)"
  by (simp add: segment_fetcher_def live_while.simps live_script_def live_track_def
      fetcher_init_def Let_def insert_commute)

theorem live_never_repeats_witness:
  "''dynamic'' \<noteq> ''static''
   \<and> yielded (snd (segment_fetcher (live_track [''i'']) ''dynamic'' live_script)) = [''i'', ''s1'', ''s2'']
   \<and> distinct (yielded (snd (segment_fetcher (live_track [''i'']) ''dynamic'' live_script)))"
proof -
  have h: "''dynamic'' \<noteq> ''static''" by simp
  from live_never_repeats [THEN conjunct1, rule_format, OF h, of "live_track [''i'']" live_script]
  have "distinct (yielded (snd (segment_fetcher (live_track [''i'']) ''dynamic'' live_script)))"
    by blast
  with h show ?thesis by (simp add: live_session)
qed

text \<open>
  Claim C7. When the task has finished, whether its loop ended, was left by a
  \<^verbatim>\<open>break\<close> or raised an exception, the queue holds the contents of the segments it
  fetched followed by exactly one end marker, and the consumer yields these contents and
  stops. While the task has not finished the queue holds no end marker, and this happens
  only when the script has run out. A task that finds the stop event set at its first
  check puts the end marker and nothing else.
\<close>

theorem segment_fetcher_end_marker:
  "(fst (segment_fetcher track mpd_type ev) \<longrightarrow>
      (\<exists>cs. queue (snd (segment_fetcher track mpd_type ev)) = map Some cs @ [None]
           \<and> consume (queue (snd (segment_fetcher track mpd_type ev))) = Some cs))
   \<and> (\<not> fst (segment_fetcher track mpd_type ev) \<longrightarrow>
      (\<exists>cs. queue (snd (segment_fetcher track mpd_type ev)) = map Some cs)
      \<and> consume (queue (snd (segment_fetcher track mpd_type ev))) = None)
   \<and> (\<forall>sig st ev'.
        (if mpd_type = ''static'' then vod_while (urls track) fetcher_init ev
         else live_while (key track) fetcher_init ev) = (sig, st, ev') \<longrightarrow>
        (fst (segment_fetcher track mpd_type ev) \<longleftrightarrow> sig \<noteq> Starved)
        \<and> (sig = Starved \<longrightarrow> exhausted ev'))
   \<and> ((\<exists>bs. stops ev = True # bs) \<longrightarrow>
        segment_fetcher track mpd_type ev = (True, fetcher_init\<lparr>queue := [None]\<rparr>))"
proof -
  obtain sig st ev' where
    w: "(if mpd_type = ''static'' then vod_while (urls track) fetcher_init ev
         else live_while (key track) fetcher_init ev) = (sig, st, ev')"
    by (cases "if mpd_type = ''static'' then vod_while (urls track) fetcher_init ev
               else live_while (key track) fetcher_init ev")
  from fetcher_loop_extends [OF w] have e: "extends fetcher_init st"
    and x: "sig = Starved \<longrightarrow> exhausted ev'" by blast+
  from extends_init_queue [OF e] obtain cs where q: "queue st = map Some cs" by blast
  have r: "segment_fetcher track mpd_type ev =
             (if sig = Starved then (False, st) else (True, st\<lparr>queue := queue st @ [None]\<rparr>))"
    unfolding segment_fetcher_def w by simp
  have 1: "\<exists>cs. queue (snd (segment_fetcher track mpd_type ev)) = map Some cs @ [None]
           \<and> consume (queue (snd (segment_fetcher track mpd_type ev))) = Some cs"
    if "fst (segment_fetcher track mpd_type ev)"
  proof -
    from that r have "sig \<noteq> Starved" by (auto split: if_splits)
    with r q have "queue (snd (segment_fetcher track mpd_type ev)) = map Some cs @ [None]"
      by simp
    with consume_marker [of cs] show ?thesis by auto
  qed
  have 2: "(\<exists>cs. queue (snd (segment_fetcher track mpd_type ev)) = map Some cs)
      \<and> consume (queue (snd (segment_fetcher track mpd_type ev))) = None"
    if "\<not> fst (segment_fetcher track mpd_type ev)"
  proof -
    from that r have "sig = Starved" by (auto split: if_splits)
    with r q have "queue (snd (segment_fetcher track mpd_type ev)) = map Some cs"
      by simp
    with consume_no_marker [of cs] show ?thesis by auto
  qed
  have 3: "\<forall>sig st ev'.
        (if mpd_type = ''static'' then vod_while (urls track) fetcher_init ev
         else live_while (key track) fetcher_init ev) = (sig, st, ev') \<longrightarrow>
        (fst (segment_fetcher track mpd_type ev) \<longleftrightarrow> sig \<noteq> Starved)
        \<and> (sig = Starved \<longrightarrow> exhausted ev')"
    unfolding w using r x by auto
  have 4: "segment_fetcher track mpd_type ev = (True, fetcher_init\<lparr>queue := [None]\<rparr>)"
    if "\<exists>bs. stops ev = True # bs"
    using that
    by (auto simp: segment_fetcher_def vod_while.simps live_while.simps fetcher_init_def)
  from 1 2 3 4 show ?thesis by blast
qed

text \<open>The four ways out: the stop event seen after a pass over the list of an on-demand
  track; the track missing from a live manifest; an exception that is not a
  \<^verbatim>\<open>RequestException\<close>; and the stop event set before the first pass.\<close>

theorem segment_fetcher_end_marker_witness:
  "segment_fetcher (live_track [''u1'', ''u2'']) ''static''
      \<lparr>stops = [False, False, False, True], gets = [Content ''A'', RequestFailed], parses = []\<rparr>
     = (True, \<lparr>queue = [Some ''A'', None], sent_segments = {},
               requested = [''u1'', ''u2''], yielded = []\<rparr>)
   \<and> consume [Some ''A'', None] = Some [''A'']
   \<and> fst (segment_fetcher (live_track [''u1'']) ''dynamic''
        \<lparr>stops = [False], gets = [],
         parses = [Some ([(''audio_a'', live_track [''a1''])], ''dynamic'')]\<rparr>)
   \<and> fst (segment_fetcher (live_track [''u1'']) ''dynamic''
        \<lparr>stops = [False, False], gets = [Crashed],
         parses = [Some ([(''video_v0'', live_track [''u1''])], ''dynamic'')]\<rparr>)
   \<and> segment_fetcher (live_track [''u1'']) ''dynamic'' \<lparr>stops = [True], gets = [], parses = []\<rparr>
     = (True, fetcher_init\<lparr>queue := [None]\<rparr>)"
proof -
  note ev = segment_fetcher_def vod_while.simps live_while.simps live_track_def fetcher_init_def Let_def
  have a: "segment_fetcher (live_track [''u1'', ''u2'']) ''static''
      \<lparr>stops = [False, False, False, True], gets = [Content ''A'', RequestFailed], parses = []\<rparr>
     = (True, \<lparr>queue = [Some ''A'', None], sent_segments = {},
               requested = [''u1'', ''u2''], yielded = []\<rparr>)"
    by (simp add: ev)
  have b: "consume [Some ''A'', None] = Some [''A'']" by simp
  have c: "fst (segment_fetcher (live_track [''u1'']) ''dynamic''
        \<lparr>stops = [False], gets = [],
         parses = [Some ([(''audio_a'', live_track [''a1''])], ''dynamic'')]\<rparr>)"
    by (simp add: ev)
  have d: "fst (segment_fetcher (live_track [''u1'']) ''dynamic''
        \<lparr>stops = [False, False], gets = [Crashed],
         parses = [Some ([(''video_v0'', live_track [''u1''])], ''dynamic'')]\<rparr>)"
    by (simp add: ev)
  have s: "\<exists>bs. stops \<lparr>stops = [True], gets = [], parses = []\<rparr> = True # bs" by simp
  have e: "segment_fetcher (live_track [''u1'']) ''dynamic'' \<lparr>stops = [True], gets = [], parses = []\<rparr>
     = (True, fetcher_init\<lparr>queue := [None]\<rparr>)"
    using s
    by (rule segment_fetcher_end_marker [THEN conjunct2, THEN conjunct2, THEN conjunct2, THEN mp])
  from a b c d e show ?thesis by blast
qed

end
